theory Spec2Isabelle
  imports Main "HOL-Library.Word" "HOL-Library.Char_ord" "HOL-Library.List_Lexorder"
    "HOL-Library.Sublist"
begin

unbundle bit_operations_syntax

section \<open>Exit status forwarding of the two launchers\<close>

text \<open>
  How a child can terminate under \<^verbatim>\<open>waitpid(child_pid, &status, 0)\<close>: it called
  exit with a code, or a signal killed it (with or without a core dump).  Stopped and
  continued children are not reported, since neither WUNTRACED nor WCONTINUED is passed.
\<close>

datatype child_end = Exited nat | Signaled nat bool

text \<open>
  The value the Linux kernel stores in \<^verbatim>\<open>status\<close>: the exit code in bits 8..15, or the
  signal number in bits 0..6 and the core flag in bit 7.
\<close>

definition wait_status :: "child_end \<Rightarrow> 32 word" where
  "wait_status e =
     (case e of
        Exited k \<Rightarrow> push_bit 8 (word_of_nat (k mod 256))
      | Signaled s core \<Rightarrow> word_of_nat (s mod 128) OR (if core then 0x80 else 0))"

text \<open>The macros of \<^verbatim>\<open><sys/wait.h>\<close> (glibc), on the 32-bit \<^verbatim>\<open>int status\<close>.\<close>

definition WEXITSTATUS :: "32 word \<Rightarrow> 32 word" where
  "WEXITSTATUS status = drop_bit 8 (status AND 0xff00)"

definition WTERMSIG :: "32 word \<Rightarrow> 32 word" where
  "WTERMSIG status = status AND 0x7f"

definition WIFEXITED :: "32 word \<Rightarrow> bool" where
  "WIFEXITED status = (WTERMSIG status = 0)"

definition WIFSIGNALED :: "32 word \<Rightarrow> bool" where
  "WIFSIGNALED status =
     (0 < sint (signed_drop_bit 1 (ucast ((status AND 0x7f) + 1) :: 8 word)))"

text \<open>
  \<^verbatim>\<open>container_launcher.cpp\<close>, \<^verbatim>\<open>main\<close>, after \<^verbatim>\<open>waitpid\<close>: the value returned from
  \<^verbatim>\<open>main\<close>.
\<close>

definition launcher_exit_status :: "32 word \<Rightarrow> 32 word" where
  "launcher_exit_status status =
     (if WIFEXITED status then WEXITSTATUS status
      else if WIFSIGNALED status then 128 + WTERMSIG status
      else 1)"

text \<open>
  \<^verbatim>\<open>sandbox/main.cpp\<close>, \<^verbatim>\<open>main\<close>, parent branch after \<^verbatim>\<open>waitpid\<close>:
  \<^verbatim>\<open>exit(WEXITSTATUS(status))\<close>, with no test of how the child ended.
\<close>

definition sandbox_parent_exit :: "32 word \<Rightarrow> 32 word" where
  "sandbox_parent_exit status = WEXITSTATUS status"

text \<open>The status another process observes: the low eight bits of the exit argument.\<close>

definition observed_exit :: "32 word \<Rightarrow> nat" where
  "observed_exit code = unat (code AND 0xff)"

section \<open>Byte buffers and JSON text\<close>

text \<open>
  A Node \<^verbatim>\<open>Buffer\<close> is a list of bytes; \<^typ>\<open>char\<close> is the 8-bit byte, so that the magic
  tag and JSON text can be written as literals.
\<close>

type_synonym bytes = "char list"

text \<open>
  \<^verbatim>\<open>buf.readUInt32BE(off)\<close>.  Node raises a RangeError unless four bytes are there; the
  callers below read offsets 4 and 8 of a buffer of at least 12 bytes.
\<close>

definition readUInt32BE :: "bytes \<Rightarrow> nat \<Rightarrow> nat" where
  "readUInt32BE buf off = foldl (\<lambda>acc c. acc * 256 + of_char c) 0 (take 4 (drop off buf))"

text \<open>
  \<^verbatim>\<open>Buffer.alloc(4); buf.writeUInt32BE(v, 0)\<close>: the four bytes, most significant first;
  a value of \<open>2^32\<close> or more is a RangeError (\<open>None\<close>).
\<close>

definition writeUInt32BE :: "nat \<Rightarrow> bytes option" where
  "writeUInt32BE v =
     (if v < 2 ^ 32
      then Some [char_of (v div 16777216), char_of (v div 65536), char_of (v div 256), char_of v]
      else None)"

text \<open>
  The values \<^verbatim>\<open>JSON.parse\<close> returns and \<^verbatim>\<open>JSON.stringify\<close> accepts.  A number is kept
  as its decimal text.  An object keeps its properties in order.
\<close>

datatype json =
    JNull
  | JBool bool
  | JNumber string
  | JString string
  | JArray "json list"
  | JObject "(string \<times> json) list"

text \<open>
  \<^verbatim>\<open>JSON.parse(buf.toString('utf8'))\<close>, read on the bytes.  The JSON grammar of ECMA-404:
  white space is space, tab, line feed and carriage return; a string holds any character
  except the quote, the backslash and the controls below U+0020, and the escapes
  \<^verbatim>\<open>\" \\ \/ \b \f \n \r \t \uXXXX\<close>.  A byte of 0x80 or more decodes to a character that
  JSON allows inside a string only, so the parser keeps such bytes in strings and rejects
  them elsewhere.  A \<^verbatim>\<open>\uXXXX\<close> escape stands for the UTF-16 code unit \<open>XXXX\<close>; the
  string, kept as bytes, holds the UTF-8 form of that code unit (of a surrogate too, which
  JavaScript keeps as a code unit of its own: three bytes).
\<close>

definition is_ws :: "char \<Rightarrow> bool" where
  "is_ws c = (c = CHR '' '' \<or> c = CHR 0x09 \<or> c = CHR 0x0A \<or> c = CHR 0x0D)"

definition skip_ws :: "string \<Rightarrow> string" where
  "skip_ws s = dropWhile is_ws s"

definition is_digit :: "char \<Rightarrow> bool" where
  "is_digit c = (CHR ''0'' \<le> c \<and> c \<le> CHR ''9'')"

definition is_hex :: "char \<Rightarrow> bool" where
  "is_hex c = (is_digit c \<or> (CHR ''a'' \<le> c \<and> c \<le> CHR ''f'') \<or> (CHR ''A'' \<le> c \<and> c \<le> CHR ''F''))"

definition hex_val :: "char \<Rightarrow> nat" where
  "hex_val c =
     (if is_digit c then of_char c - 48
      else if CHR ''a'' \<le> c \<and> c \<le> CHR ''f'' then of_char c - 87
      else of_char c - 55)"

definition code_unit :: "string \<Rightarrow> nat" where
  "code_unit ds = foldl (\<lambda>acc d. acc * 16 + hex_val d) 0 ds"

definition utf8 :: "nat \<Rightarrow> string" where
  "utf8 n =
     (if n < 0x80 then [char_of n]
      else if n < 0x800 then [char_of (0xC0 + n div 64), char_of (0x80 + n mod 64)]
      else [char_of (0xE0 + n div 4096), char_of (0x80 + n div 64 mod 64),
            char_of (0x80 + n mod 64)])"

definition unescape :: "char \<Rightarrow> char option" where
  "unescape e =
     (if e = CHR 0x22 then Some (CHR 0x22)
      else if e = CHR 0x5C then Some (CHR 0x5C)
      else if e = CHR ''/'' then Some (CHR ''/'')
      else if e = CHR ''b'' then Some (CHR 0x08)
      else if e = CHR ''f'' then Some (CHR 0x0C)
      else if e = CHR ''n'' then Some (CHR 0x0A)
      else if e = CHR ''r'' then Some (CHR 0x0D)
      else if e = CHR ''t'' then Some (CHR 0x09)
      else None)"

text \<open>The characters of a string after its opening quote, up to the closing one.\<close>

fun parse_chars :: "string \<Rightarrow> (string \<times> string) option" where
  "parse_chars [] = None"
| "parse_chars (c # cs) =
     (if c = CHR 0x22 then Some ([], cs)
      else if c = CHR 0x5C then
        (case cs of
           [] \<Rightarrow> None
         | e # cs' \<Rightarrow>
             if e = CHR ''u'' then
               (if 4 \<le> length cs' \<and> list_all is_hex (take 4 cs')
                then map_option (\<lambda>(r, rest). (utf8 (code_unit (take 4 cs')) @ r, rest))
                       (parse_chars (drop 4 cs'))
                else None)
             else
               (case unescape e of
                  None \<Rightarrow> None
                | Some u \<Rightarrow> map_option (\<lambda>(r, rest). (u # r, rest)) (parse_chars cs')))
      else if (of_char c :: nat) < 0x20 then None
      else map_option (\<lambda>(r, rest). (c # r, rest)) (parse_chars cs))"

text \<open>
  A number: an optional minus, then \<^verbatim>\<open>0\<close> or a digit string without leading zero, an
  optional fraction, an optional exponent.  The result is its text and the rest.
\<close>

definition take_digits :: "string \<Rightarrow> string \<times> string" where
  "take_digits s = (takeWhile is_digit s, dropWhile is_digit s)"

definition parse_int_part :: "string \<Rightarrow> (string \<times> string) option" where
  "parse_int_part s =
     (case s of
        [] \<Rightarrow> None
      | c # cs \<Rightarrow>
          if c = CHR ''0'' then Some ([c], cs)
          else if is_digit c then (case take_digits cs of (ds, r) \<Rightarrow> Some (c # ds, r))
          else None)"

definition parse_frac :: "string \<Rightarrow> (string \<times> string) option" where
  "parse_frac s =
     (case s of
        c # cs \<Rightarrow>
          if c = CHR ''.'' then
            (case take_digits cs of (ds, r) \<Rightarrow> if ds = [] then None else Some (c # ds, r))
          else Some ([], s)
      | [] \<Rightarrow> Some ([], s))"

definition parse_exp :: "string \<Rightarrow> (string \<times> string) option" where
  "parse_exp s =
     (case s of
        c # cs \<Rightarrow>
          if c = CHR ''e'' \<or> c = CHR ''E'' then
            (let (sg, cs') = (case cs of
                                d # r \<Rightarrow> if d = CHR ''+'' \<or> d = CHR ''-'' then ([d], r) else ([], cs)
                              | [] \<Rightarrow> ([], cs))
             in case take_digits cs' of (ds, r) \<Rightarrow>
                  if ds = [] then None else Some (c # sg @ ds, r))
          else Some ([], s)
      | [] \<Rightarrow> Some ([], s))"

definition parse_number :: "string \<Rightarrow> (string \<times> string) option" where
  "parse_number s =
     (let (sg, s1) = (case s of c # cs \<Rightarrow> if c = CHR ''-'' then ([c], cs) else ([], s) | [] \<Rightarrow> ([], s))
      in case parse_int_part s1 of
           None \<Rightarrow> None
         | Some (ip, s2) \<Rightarrow>
             (case parse_frac s2 of
                None \<Rightarrow> None
              | Some (fp, s3) \<Rightarrow>
                  (case parse_exp s3 of
                     None \<Rightarrow> None
                   | Some (ep, s4) \<Rightarrow> Some (sg @ ip @ fp @ ep, s4))))"

definition parse_literal :: "string \<Rightarrow> json \<Rightarrow> string \<Rightarrow> (json \<times> string) option" where
  "parse_literal w v s = (if take (length w) s = w then Some (v, drop (length w) s) else None)"

text \<open>
  Values, array elements and object members.  The first argument bounds the number of
  nested calls; \<open>JSON_parse\<close> passes twice the length of the text plus two, which the
  recursion cannot use up, since every call but the first follows a consumed character.
\<close>

fun parse_value :: "nat \<Rightarrow> string \<Rightarrow> (json \<times> string) option"
  and parse_elements :: "nat \<Rightarrow> string \<Rightarrow> (json list \<times> string) option"
  and parse_members :: "nat \<Rightarrow> string \<Rightarrow> ((string \<times> json) list \<times> string) option"
where
  "parse_value 0 s = None"
| "parse_value (Suc n) s =
     (case skip_ws s of
        [] \<Rightarrow> None
      | c # cs \<Rightarrow>
          if c = CHR ''{'' then
            (case skip_ws cs of
               [] \<Rightarrow> None
             | d # r \<Rightarrow>
                 if d = CHR ''}'' then Some (JObject [], r)
                 else map_option (\<lambda>(ms, r'). (JObject ms, r')) (parse_members n cs))
          else if c = CHR ''['' then
            (case skip_ws cs of
               [] \<Rightarrow> None
             | d # r \<Rightarrow>
                 if d = CHR '']'' then Some (JArray [], r)
                 else map_option (\<lambda>(vs, r'). (JArray vs, r')) (parse_elements n cs))
          else if c = CHR 0x22 then
            map_option (\<lambda>(str, r). (JString str, r)) (parse_chars cs)
          else if c = CHR ''t'' then parse_literal ''true'' (JBool True) (c # cs)
          else if c = CHR ''f'' then parse_literal ''false'' (JBool False) (c # cs)
          else if c = CHR ''n'' then parse_literal ''null'' JNull (c # cs)
          else map_option (\<lambda>(num, r). (JNumber num, r)) (parse_number (c # cs)))"
| "parse_elements 0 s = None"
| "parse_elements (Suc n) s =
     (case parse_value n s of
        None \<Rightarrow> None
      | Some (v, r) \<Rightarrow>
          (case skip_ws r of
             [] \<Rightarrow> None
           | d # r' \<Rightarrow>
               if d = CHR '','' then
                 map_option (\<lambda>(vs, r''). (v # vs, r'')) (parse_elements n r')
               else if d = CHR '']'' then Some ([v], r')
               else None))"
| "parse_members 0 s = None"
| "parse_members (Suc n) s =
     (case skip_ws s of
        [] \<Rightarrow> None
      | q # cs \<Rightarrow>
          if q \<noteq> CHR 0x22 then None
          else
            (case parse_chars cs of
               None \<Rightarrow> None
             | Some (k, r) \<Rightarrow>
                 (case skip_ws r of
                    [] \<Rightarrow> None
                  | col # r1 \<Rightarrow>
                      if col \<noteq> CHR '':'' then None
                      else
                        (case parse_value n r1 of
                           None \<Rightarrow> None
                         | Some (v, r2) \<Rightarrow>
                             (case skip_ws r2 of
                                [] \<Rightarrow> None
                              | d # r3 \<Rightarrow>
                                  if d = CHR '','' then
                                    map_option (\<lambda>(ms, r4). ((k, v) # ms, r4)) (parse_members n r3)
                                  else if d = CHR ''}'' then Some ([(k, v)], r3)
                                  else None)))))"

definition JSON_parse :: "string \<Rightarrow> json option" where
  "JSON_parse s =
     (case parse_value (2 * length s + 2) s of
        None \<Rightarrow> None
      | Some (v, r) \<Rightarrow> if skip_ws r = [] then Some v else None)"

subsection \<open>\<^verbatim>\<open>JSON.stringify(value, null, 2)\<close>\<close>

fun show_nat :: "nat \<Rightarrow> string" where
  "show_nat n =
     (if n < 10 then [char_of (48 + n)]
      else show_nat (n div 10) @ [char_of (48 + n mod 10)])"

declare show_nat.simps [simp del]

definition hex_digit :: "nat \<Rightarrow> char" where
  "hex_digit n = ''0123456789abcdef'' ! (n mod 16)"

text \<open>\<^verbatim>\<open>QuoteJSONString\<close>, one character.\<close>

definition quote_char :: "char \<Rightarrow> string" where
  "quote_char c =
     (if c = CHR 0x08 then [CHR 0x5C, CHR ''b'']
      else if c = CHR 0x09 then [CHR 0x5C, CHR ''t'']
      else if c = CHR 0x0A then [CHR 0x5C, CHR ''n'']
      else if c = CHR 0x0C then [CHR 0x5C, CHR ''f'']
      else if c = CHR 0x0D then [CHR 0x5C, CHR ''r'']
      else if c = CHR 0x22 then [CHR 0x5C, CHR 0x22]
      else if c = CHR 0x5C then [CHR 0x5C, CHR 0x5C]
      else if (of_char c :: nat) < 0x20 then
        [CHR 0x5C, CHR ''u'', CHR ''0'', CHR ''0'', hex_digit (of_char c div 16), hex_digit (of_char c)]
      else [c])"

definition quote :: "string \<Rightarrow> string" where
  "quote s = CHR 0x22 # concat (map quote_char s) @ [CHR 0x22]"

fun join_with :: "string \<Rightarrow> string list \<Rightarrow> string" where
  "join_with sep [] = []"
| "join_with sep [x] = x"
| "join_with sep (x # y # ys) = x @ sep @ join_with sep (y # ys)"

text \<open>A line feed and the indentation of nesting depth \<open>i\<close>, two spaces a level.\<close>

definition nl_indent :: "nat \<Rightarrow> string" where
  "nl_indent i = CHR 0x0A # replicate (2 * i) (CHR '' '')"

fun stringify :: "nat \<Rightarrow> json \<Rightarrow> string"
  and stringify_elements :: "nat \<Rightarrow> json list \<Rightarrow> string list"
  and stringify_members :: "nat \<Rightarrow> (string \<times> json) list \<Rightarrow> string list"
where
  "stringify i JNull = ''null''"
| "stringify i (JBool b) = (if b then ''true'' else ''false'')"
| "stringify i (JNumber n) = n"
| "stringify i (JString s) = quote s"
| "stringify i (JArray vs) =
     (if vs = [] then ''[]''
      else ''['' @ nl_indent (Suc i)
             @ join_with ('','' @ nl_indent (Suc i)) (stringify_elements (Suc i) vs)
             @ nl_indent i @ '']'')"
| "stringify i (JObject ms) =
     (if ms = [] then ''{}''
      else ''{'' @ nl_indent (Suc i)
             @ join_with ('','' @ nl_indent (Suc i)) (stringify_members (Suc i) ms)
             @ nl_indent i @ ''}'')"
| "stringify_elements i [] = []"
| "stringify_elements i (v # vs) = stringify i v # stringify_elements i vs"
| "stringify_members i [] = []"
| "stringify_members i (m # ms) =
     (quote (fst m) @ '': '' @ stringify i (snd m)) # stringify_members i ms"

text \<open>
  The values a JavaScript program holds, as far as \<^verbatim>\<open>JSON.stringify\<close> tells them apart:
  \<^verbatim>\<open>undefined\<close>; \<^verbatim>\<open>null\<close>; a boolean; a finite number, given by the decimal text that
  \<^verbatim>\<open>Number.prototype.toString\<close> gives for it; \<^verbatim>\<open>NaN\<close>, \<^verbatim>\<open>Infinity\<close> or \<^verbatim>\<open>-Infinity\<close>; a
  string; a valid \<^verbatim>\<open>Date\<close>, given by its \<^verbatim>\<open>toISOString()\<close> text; an array; a plain object,
  its properties in the order in which \<^verbatim>\<open>JSON.stringify\<close> visits them.
\<close>

datatype jsval =
    VUndefined
  | VNull
  | VBool bool
  | VNumber string
  | VNonFinite
  | VString string
  | VDate string
  | VArray "jsval list"
  | VObject "(string \<times> jsval) list"

text \<open>
  What \<^verbatim>\<open>JSON.stringify\<close> serialises for a value (\<^verbatim>\<open>SerializeJSONProperty\<close>): nothing for
  \<^verbatim>\<open>undefined\<close>; \<^verbatim>\<open>null\<close> for a number that is not finite; for a \<^verbatim>\<open>Date\<close> the string its
  \<^verbatim>\<open>toJSON\<close> returns; in an array \<^verbatim>\<open>null\<close> in the place of an element with nothing to
  serialise; in an object no member for a property with nothing to serialise.
\<close>

fun to_json :: "jsval \<Rightarrow> json option"
  and to_json_elements :: "jsval list \<Rightarrow> json list"
  and to_json_members :: "(string \<times> jsval) list \<Rightarrow> (string \<times> json) list"
where
  "to_json VUndefined = None"
| "to_json VNull = Some JNull"
| "to_json (VBool b) = Some (JBool b)"
| "to_json (VNumber n) = Some (JNumber n)"
| "to_json VNonFinite = Some JNull"
| "to_json (VString s) = Some (JString s)"
| "to_json (VDate d) = Some (JString d)"
| "to_json (VArray vs) = Some (JArray (to_json_elements vs))"
| "to_json (VObject ms) = Some (JObject (to_json_members ms))"
| "to_json_elements [] = []"
| "to_json_elements (v # vs) =
     (case to_json v of None \<Rightarrow> JNull | Some j \<Rightarrow> j) # to_json_elements vs"
| "to_json_members [] = []"
| "to_json_members (m # ms) =
     (case to_json (snd m) of
        None \<Rightarrow> to_json_members ms
      | Some j \<Rightarrow> (fst m, j) # to_json_members ms)"

text \<open>\<^verbatim>\<open>JSON.stringify(value, null, 2)\<close>: \<^verbatim>\<open>undefined\<close> (\<open>None\<close>) or the text.\<close>

definition JSON_stringify :: "jsval \<Rightarrow> string option" where
  "JSON_stringify v = map_option (stringify 0) (to_json v)"

text \<open>
  A finite number is given by a text of the JSON number grammar, as every text of
  \<^verbatim>\<open>Number.prototype.toString\<close> is: \<open>valid_value\<close> says so of every finite number inside a
  JavaScript value, \<open>valid_json\<close> of every number inside a JSON value.
\<close>

definition number_text :: "string \<Rightarrow> bool" where
  "number_text s = (parse_number s = Some (s, []))"

fun valid_json :: "json \<Rightarrow> bool"
  and valid_json_elements :: "json list \<Rightarrow> bool"
  and valid_json_members :: "(string \<times> json) list \<Rightarrow> bool"
where
  "valid_json JNull = True"
| "valid_json (JBool b) = True"
| "valid_json (JNumber n) = number_text n"
| "valid_json (JString s) = True"
| "valid_json (JArray vs) = valid_json_elements vs"
| "valid_json (JObject ms) = valid_json_members ms"
| "valid_json_elements [] = True"
| "valid_json_elements (v # vs) = (valid_json v \<and> valid_json_elements vs)"
| "valid_json_members [] = True"
| "valid_json_members (m # ms) = (valid_json (snd m) \<and> valid_json_members ms)"

fun valid_value :: "jsval \<Rightarrow> bool"
  and valid_elements :: "jsval list \<Rightarrow> bool"
  and valid_members :: "(string \<times> jsval) list \<Rightarrow> bool"
where
  "valid_value (VNumber n) = number_text n"
| "valid_value (VArray vs) = valid_elements vs"
| "valid_value (VObject ms) = valid_members ms"
| "valid_value VUndefined = True"
| "valid_value VNull = True"
| "valid_value (VBool b) = True"
| "valid_value VNonFinite = True"
| "valid_value (VString s) = True"
| "valid_value (VDate d) = True"
| "valid_elements [] = True"
| "valid_elements (v # vs) = (valid_value v \<and> valid_elements vs)"
| "valid_members [] = True"
| "valid_members (m # ms) = (valid_value (snd m) \<and> valid_members ms)"

text \<open>
  The nesting of calls that \<open>parse_value\<close> makes on the text of a value: the bound it
  needs as its first argument.
\<close>

fun nesting :: "json \<Rightarrow> nat"
  and nesting_elements :: "json list \<Rightarrow> nat"
  and nesting_members :: "(string \<times> json) list \<Rightarrow> nat"
where
  "nesting JNull = 1"
| "nesting (JBool b) = 1"
| "nesting (JNumber n) = 1"
| "nesting (JString s) = 1"
| "nesting (JArray vs) = Suc (nesting_elements vs)"
| "nesting (JObject ms) = Suc (nesting_members ms)"
| "nesting_elements [] = 0"
| "nesting_elements (v # vs) = Suc (max (nesting v) (nesting_elements vs))"
| "nesting_members [] = 0"
| "nesting_members (m # ms) = Suc (max (nesting (snd m)) (nesting_members ms))"

text \<open>What may follow the text of a value inside the text that \<open>stringify\<close> writes.\<close>

definition value_end :: "string \<Rightarrow> bool" where
  "value_end rest = (case rest of [] \<Rightarrow> True | c # cs \<Rightarrow> c = CHR '','' \<or> c = CHR 0x0A)"

section \<open>The image codec: \<^verbatim>\<open>lib/image.js\<close>\<close>

definition MAGIC_BYTES :: bytes where
  "MAGIC_BYTES = ''NSI!''"

definition VERSION :: nat where
  "VERSION = 1"

definition HEADER_FIXED_LEN :: nat where
  "HEADER_FIXED_LEN = 12"

subsection \<open>\<^verbatim>\<open>readNsiImage\<close>\<close>

text \<open>The errors \<^verbatim>\<open>readNsiImage\<close> rejects its promise with, one per message.\<close>

datatype read_error =
    InvalidMagic bytes
  | UnsupportedVersion nat
  | LargeHeaderLength nat
  | HeaderJsonError
  | IncompleteImage

record headerInfo =
  hi_version :: nat
  headerJsonLen :: nat
  headerOffset :: nat

text \<open>
  The closure state of \<^verbatim>\<open>readNsiImage\<close>: while the promise is pending, the bytes
  gathered so far and \<^verbatim>\<open>headerInfo\<close> (\<open>None\<close> for \<^verbatim>\<open>null\<close>); once it is settled, the
  rejection, or the resolved header, version, payload offset and buffer.
\<close>

datatype read_state =
    Pending bytes "headerInfo option"
  | Rejected read_error
  | Resolved json nat nat bytes

text \<open>Step 1 of the \<^verbatim>\<open>'data'\<close> handler: the fixed twelve bytes.\<close>

definition parse_fixed :: "headerInfo option \<Rightarrow> bytes \<Rightarrow> read_error + headerInfo option" where
  "parse_fixed hi buffer =
     (if hi = None \<and> HEADER_FIXED_LEN \<le> length buffer then
        if take 4 buffer \<noteq> MAGIC_BYTES then Inl (InvalidMagic (take 4 buffer))
        else
          let version = readUInt32BE buffer 4 in
          if version \<noteq> VERSION then Inl (UnsupportedVersion version)
          else
            let len = readUInt32BE buffer 8 in
            if 10 * 1024 * 1024 < len then Inl (LargeHeaderLength len)
            else Inr (Some \<lparr>hi_version = version, headerJsonLen = len,
                             headerOffset = HEADER_FIXED_LEN\<rparr>)
      else Inr hi)"

text \<open>Step 2 of the \<^verbatim>\<open>'data'\<close> handler: the JSON header, once all of it is buffered.\<close>

definition parse_header :: "headerInfo option \<Rightarrow> bytes \<Rightarrow> read_state" where
  "parse_header hi buffer =
     (case hi of
        None \<Rightarrow> Pending buffer hi
      | Some info \<Rightarrow>
          if headerOffset info + headerJsonLen info \<le> length buffer then
            let payloadOffset = headerOffset info + headerJsonLen info in
            (case JSON_parse (take (headerJsonLen info) (drop (headerOffset info) buffer)) of
               None \<Rightarrow> Rejected HeaderJsonError
             | Some j \<Rightarrow> Resolved j (hi_version info) payloadOffset buffer)
          else Pending buffer hi)"

text \<open>The \<^verbatim>\<open>'data'\<close> handler; a settled promise ignores the chunk.\<close>

fun on_data :: "read_state \<Rightarrow> bytes \<Rightarrow> read_state" where
  "on_data (Pending buffer hi) chunk =
     (case parse_fixed hi (buffer @ chunk) of
        Inl err \<Rightarrow> Rejected err
      | Inr hi' \<Rightarrow> parse_header hi' (buffer @ chunk))"
| "on_data st chunk = st"

text \<open>The \<^verbatim>\<open>'end'\<close> handler.\<close>

fun on_end :: "read_state \<Rightarrow> read_state" where
  "on_end (Pending buffer hi) = Rejected IncompleteImage"
| "on_end st = st"

text \<open>
  The file stream delivers its chunks and then \<^verbatim>\<open>'end'\<close>.  A rejection destroys the
  stream and a resolution pauses it, so the chunks not yet delivered stay in the stream:
  they are the second component.
\<close>

fun feed :: "read_state \<Rightarrow> bytes list \<Rightarrow> read_state \<times> bytes list" where
  "feed st [] = (on_end st, [])"
| "feed st (chunk # rest) =
     (case on_data st chunk of
        Pending buffer hi \<Rightarrow> feed (Pending buffer hi) rest
      | st' \<Rightarrow> (st', rest))"

definition readNsiImage :: "bytes list \<Rightarrow> read_state \<times> bytes list" where
  "readNsiImage chunks = feed (Pending [] None) chunks"

text \<open>
  \<^verbatim>\<open>getPayloadStream\<close>: what is written to the inflater, in order.  First the part of the
  buffer after the header, if it is not empty, by \<^verbatim>\<open>inflater.write\<close>; then the chunks
  the resumed stream pipes in.
\<close>

definition inflater_input :: "bytes \<Rightarrow> nat \<Rightarrow> bytes list \<Rightarrow> bytes list" where
  "inflater_input buffer payloadOffset rest =
     (let compressedPayloadBuffer = drop payloadOffset buffer
      in (if 0 < length compressedPayloadBuffer then [compressedPayloadBuffer] else []) @ rest)"

text \<open>
  What a caller of \<^verbatim>\<open>readNsiImage\<close> gets: the rejection, or the header, the version and
  the bytes of the payload stream.  \<open>inflate\<close> is zlib's inflate, a function of all the
  bytes written to it; its error surfaces on the payload stream.
\<close>

datatype ('e, 'a) opened = Failed 'e | Opened json nat 'a

fun opened_of ::
  "(bytes \<Rightarrow> string + bytes) \<Rightarrow> read_state \<times> bytes list \<Rightarrow> (read_error, string + bytes) opened" where
  "opened_of inflate (Resolved j v off buffer, rest) =
     Opened j v (inflate (concat (inflater_input buffer off rest)))"
| "opened_of inflate (Rejected err, rest) = Failed err"
| "opened_of inflate (Pending buffer hi, rest) = Failed IncompleteImage"

definition open_image ::
  "(bytes \<Rightarrow> string + bytes) \<Rightarrow> bytes list \<Rightarrow> (read_error, string + bytes) opened" where
  "open_image inflate chunks = opened_of inflate (readNsiImage chunks)"

text \<open>
  The same on the whole file at once, following the layout of the format: the reference
  for reading in chunks.
\<close>

definition open_whole ::
  "(bytes \<Rightarrow> string + bytes) \<Rightarrow> bytes \<Rightarrow> (read_error, string + bytes) opened" where
  "open_whole inflate file =
     (if length file < HEADER_FIXED_LEN then Failed IncompleteImage
      else if take 4 file \<noteq> MAGIC_BYTES then Failed (InvalidMagic (take 4 file))
      else if readUInt32BE file 4 \<noteq> VERSION then Failed (UnsupportedVersion (readUInt32BE file 4))
      else if 10 * 1024 * 1024 < readUInt32BE file 8
        then Failed (LargeHeaderLength (readUInt32BE file 8))
      else if length file < HEADER_FIXED_LEN + readUInt32BE file 8 then Failed IncompleteImage
      else
        (case JSON_parse (take (readUInt32BE file 8) (drop HEADER_FIXED_LEN file)) of
           None \<Rightarrow> Failed HeaderJsonError
         | Some j \<Rightarrow>
             Opened j (readUInt32BE file 4)
               (inflate (drop (HEADER_FIXED_LEN + readUInt32BE file 8) file))))"

subsection \<open>\<^verbatim>\<open>extractNsiPayload\<close>\<close>



subsection \<open>\<^verbatim>\<open>createNsiImage\<close>\<close>

text \<open>
  A JavaScript object with string keys, its properties in order.  An assignment
  \<^verbatim>\<open>o.k = v\<close> to a key that is not an array index, as \<^verbatim>\<open>hash\<close>, \<^verbatim>\<open>created\<close> and
  \<^verbatim>\<open>size\<close> are not, replaces the value of an existing property where it stands and adds
  a new property at the end.
\<close>

type_synonym obj = "(string \<times> jsval) list"

fun obj_set :: "'k \<Rightarrow> 'v \<Rightarrow> ('k \<times> 'v) list \<Rightarrow> ('k \<times> 'v) list" where
  "obj_set k v [] = [(k, v)]"
| "obj_set k v (p # ps) = (if fst p = k then (k, v) # ps else p # obj_set k v ps)"

text \<open>
  How \<^verbatim>\<open>fs.writeFile(path, data)\<close> can end: all of the data is in the file; the file could
  not be opened and is as before; or the file was opened, which truncates it, and the
  write failed after some of the bytes.
\<close>

datatype write_fault = WriteOk | OpenFailed string | WriteFailedAfter nat string

text \<open>
  What \<^verbatim>\<open>createNsiImage\<close> calls outside \<^verbatim>\<open>lib/image.js\<close>: tar-fs's
  \<^verbatim>\<open>tar.pack(sourceDir)\<close>, as the function from the directory tree at that path (\<open>None\<close>
  when there is none) to all the bytes of the stream or its error; the SHA-256 hex
  digest; the clock's \<^verbatim>\<open>toISOString()\<close>; zlib's \<^verbatim>\<open>deflate\<close> at level 9, to the compressed
  bytes or its error; and how the file write ends.  \<open>'d\<close> is the type of directory trees.
\<close>

record 'd platform =
  tar_pack :: "'d option \<Rightarrow> string + bytes"
  sha256_hex :: "bytes \<Rightarrow> string"
  now_iso :: string
  deflate :: "bytes \<Rightarrow> string + bytes"
  write_fault :: write_fault

text \<open>
  The state \<^verbatim>\<open>createNsiImage\<close> acts on: the regular files by path, the directory trees by
  path, and the object the caller passed as \<^verbatim>\<open>headerJson\<close>, which the function holds by
  reference.
\<close>

record 'd world =
  files :: "string \<rightharpoonup> bytes"
  dirs :: "string \<rightharpoonup> 'd"
  headerJson :: obj

text \<open>
  The rejections of the promise, and two exceptions thrown inside the zlib callback,
  where no \<^verbatim>\<open>try\<close> catches them: the \<^verbatim>\<open>TypeError\<close> of \<^verbatim>\<open>Buffer.from\<close> on \<^verbatim>\<open>undefined\<close>
  and the \<^verbatim>\<open>RangeError\<close> of \<^verbatim>\<open>writeUInt32BE\<close>.
\<close>

datatype create_error =
    TarPackingFailed string
  | ZlibCompressionFailed string
  | HeaderNotSerialised
  | HeaderLengthRangeError
  | WriteImageFailed string

definition writeFile ::
  "write_fault \<Rightarrow> string \<Rightarrow> bytes \<Rightarrow> 'd world \<Rightarrow> 'd world \<times> string option" where
  "writeFile fault path data w =
     (case fault of
        WriteOk \<Rightarrow> (w\<lparr>files := (files w)(path \<mapsto> data)\<rparr>, None)
      | OpenFailed msg \<Rightarrow> (w, Some msg)
      | WriteFailedAfter n msg \<Rightarrow> (w\<lparr>files := (files w)(path \<mapsto> take n data)\<rparr>, Some msg))"

text \<open>The bytes of an image file: \<^verbatim>\<open>Buffer.concat\<close> of the five parts.\<close>

definition image_bytes :: "bytes \<Rightarrow> bytes \<Rightarrow> bytes option" where
  "image_bytes headerBuffer compressedPayload =
     (case writeUInt32BE VERSION of
        None \<Rightarrow> None
      | Some versionBuffer \<Rightarrow>
          (case writeUInt32BE (length headerBuffer) of
             None \<Rightarrow> None
           | Some headerLenBuffer \<Rightarrow>
               Some (MAGIC_BYTES @ versionBuffer @ headerLenBuffer @ headerBuffer
                       @ compressedPayload)))"

definition createNsiImage ::
  "'d platform \<Rightarrow> string \<Rightarrow> string \<Rightarrow> 'd world \<Rightarrow> 'd world \<times> (create_error + string)" where
  "createNsiImage pf imagePath sourceDir w =
     (case tar_pack pf (dirs w sourceDir) of
        Inl msg \<Rightarrow> (w, Inl (TarPackingFailed msg))
      | Inr rawPayload \<Rightarrow>
          let payloadHash = sha256_hex pf rawPayload;
              w1 = w\<lparr>headerJson := obj_set ''hash'' (VString payloadHash) (headerJson w)\<rparr>;
              w2 = w1\<lparr>headerJson := obj_set ''created'' (VString (now_iso pf)) (headerJson w1)\<rparr>
          in
          (case deflate pf rawPayload of
             Inl msg \<Rightarrow> (w2, Inl (ZlibCompressionFailed msg))
           | Inr compressedPayload \<Rightarrow>
               let w3 = w2\<lparr>headerJson :=
                            obj_set ''size'' (VNumber (show_nat (length compressedPayload)))
                              (headerJson w2)\<rparr>
               in
               (case JSON_stringify (VObject (headerJson w3)) of
                  None \<Rightarrow> (w3, Inl HeaderNotSerialised)
                | Some finalHeaderJsonString \<Rightarrow>
                    (case image_bytes finalHeaderJsonString compressedPayload of
                       None \<Rightarrow> (w3, Inl HeaderLengthRangeError)
                     | Some finalBuffer \<Rightarrow>
                         (case writeFile (write_fault pf) imagePath finalBuffer w3 of
                            (w4, Some msg) \<Rightarrow> (w4, Inl (WriteImageFailed msg))
                          | (w4, None) \<Rightarrow> (w4, Inr imagePath))))))"

subsection \<open>The build command writes the image: \<^verbatim>\<open>src/cli/commands/build.js\<close>, step 7\<close>

text \<open>
  One \<^verbatim>\<open>await fileHandle.write(buffer)\<close> makes one write call at the current position of
  the file: it throws, and has written nothing, or it resolves with the number of bytes
  written, which can be less than the length of the buffer.  The build command does not
  read that number.
\<close>

datatype write_result = Wrote nat | Write_throws

text \<open>
  The five writes of step 7 in a row: \<open>res i\<close> is how write number \<open>i\<close> ends.  The result
  is the content of the file afterwards and whether every write resolved.
\<close>

fun write_seq :: "(nat \<Rightarrow> write_result) \<Rightarrow> nat \<Rightarrow> bytes list \<Rightarrow> bytes \<Rightarrow> bytes \<times> bool" where
  "write_seq res i [] content = (content, True)"
| "write_seq res i (piece # pieces) content =
     (case res i of
        Write_throws \<Rightarrow> (content, False)
      | Wrote n \<Rightarrow> write_seq res (Suc i) pieces (content @ take n piece))"

definition handler_pieces :: "bytes \<Rightarrow> bytes \<Rightarrow> bytes list option" where
  "handler_pieces headerBuffer compressedPayload =
     (case writeUInt32BE (length headerBuffer) of
        None \<Rightarrow> None
      | Some headerLengthBuffer \<Rightarrow>
          Some [''NSI!'', [CHR 0x00, CHR 0x00, CHR 0x00, CHR 0x01], headerLengthBuffer,
                headerBuffer, compressedPayload])"

text \<open>
  Step 7 on the file at the output path: \<^verbatim>\<open>fsPromises.open(outputFullPath, 'w')\<close>, which
  throws and leaves the path as it is, or creates the file or empties it; the writes;
  \<^verbatim>\<open>fileHandle.close()\<close>, reached when no write has thrown.  The result is the files
  afterwards and whether the step completed, so that the build reports success.  The
  other steps of the command, among them the temporary tar file it writes to
  \<^verbatim>\<open>os.tmpdir()\<close> and unlinks, are not part of this function.
\<close>

definition handler_write_image ::
  "bool \<Rightarrow> (nat \<Rightarrow> write_result) \<Rightarrow> bool \<Rightarrow> string \<Rightarrow> bytes list \<Rightarrow> (string \<rightharpoonup> bytes)
     \<Rightarrow> (string \<rightharpoonup> bytes) \<times> bool" where
  "handler_write_image open_ok res close_ok outputFullPath pieces fs =
     (if \<not> open_ok then (fs, False)
      else case write_seq res 0 pieces [] of
             (content, written) \<Rightarrow> (fs(outputFullPath \<mapsto> content), written \<and> close_ok))"

subsection \<open>The run command checks the hash: \<^verbatim>\<open>src/cli/commands/run.js\<close>, step 3\<close>


text \<open>
  \<^verbatim>\<open>header.hash\<close> on the parsed header: the value of the last member of that name, or
  \<open>None\<close> for \<^verbatim>\<open>undefined\<close>.
\<close>

definition get_prop :: "json \<Rightarrow> string \<Rightarrow> json option" where
  "get_prop j k = (case j of JObject ms \<Rightarrow> map_of (rev ms) k | _ \<Rightarrow> None)"


subsection \<open>Reading in chunks against reading at once\<close>

text \<open>What a pending \<^verbatim>\<open>readNsiImage\<close> has established about the bytes gathered so far.\<close>

definition pending_inv :: "bytes \<Rightarrow> headerInfo option \<Rightarrow> bool" where
  "pending_inv buf hi =
     (if length buf < HEADER_FIXED_LEN then hi = None
      else take 4 buf = MAGIC_BYTES \<and> readUInt32BE buf 4 = VERSION
           \<and> readUInt32BE buf 8 \<le> 10 * 1024 * 1024
           \<and> hi = Some \<lparr>hi_version = readUInt32BE buf 4, headerJsonLen = readUInt32BE buf 8,
                          headerOffset = HEADER_FIXED_LEN\<rparr>
           \<and> length buf < HEADER_FIXED_LEN + readUInt32BE buf 8)"

text \<open>The state the \<^verbatim>\<open>'data'\<close> handler leaves, as a function of the buffer alone.\<close>

definition settle_buffer :: "bytes \<Rightarrow> read_state" where
  "settle_buffer b =
     (if length b < HEADER_FIXED_LEN then Pending b None
      else if take 4 b \<noteq> MAGIC_BYTES then Rejected (InvalidMagic (take 4 b))
      else if readUInt32BE b 4 \<noteq> VERSION then Rejected (UnsupportedVersion (readUInt32BE b 4))
      else if 10 * 1024 * 1024 < readUInt32BE b 8 then Rejected (LargeHeaderLength (readUInt32BE b 8))
      else if length b < HEADER_FIXED_LEN + readUInt32BE b 8
        then Pending b (Some \<lparr>hi_version = readUInt32BE b 4, headerJsonLen = readUInt32BE b 8,
                                headerOffset = HEADER_FIXED_LEN\<rparr>)
      else
        (case JSON_parse (take (readUInt32BE b 8) (drop HEADER_FIXED_LEN b)) of
           None \<Rightarrow> Rejected HeaderJsonError
         | Some j \<Rightarrow> Resolved j (readUInt32BE b 4) (HEADER_FIXED_LEN + readUInt32BE b 8) b))"

subsection \<open>The header \<^verbatim>\<open>createNsiImage\<close> serialises\<close>

text \<open>The caller's object after the three assignments.\<close>

definition final_header :: "'d platform \<Rightarrow> bytes \<Rightarrow> bytes \<Rightarrow> obj \<Rightarrow> obj" where
  "final_header pf rawPayload compressedPayload h =
     obj_set ''size'' (VNumber (show_nat (length compressedPayload)))
       (obj_set ''created'' (VString (now_iso pf))
         (obj_set ''hash'' (VString (sha256_hex pf rawPayload)) h))"

text \<open>
  \<^verbatim>\<open>JSON.stringify(headerJson, null, 2)\<close> on an object: always a text.
\<close>

definition header_text :: "obj \<Rightarrow> string" where
  "header_text h = stringify 0 (JObject (to_json_members h))"

text \<open>
  The header bytes of an image file, as the length field at offset 8 delimits them.
\<close>

definition header_on_disk :: "bytes \<Rightarrow> bytes" where
  "header_on_disk f = take (readUInt32BE f 8) (drop HEADER_FIXED_LEN f)"

text \<open>The properties a header has besides the three that \<^verbatim>\<open>createNsiImage\<close> assigns.\<close>

definition other_fields :: "(string \<times> 'v) list \<Rightarrow> (string \<times> 'v) list" where
  "other_fields h = filter (\<lambda>p. fst p \<notin> {''hash'', ''created'', ''size''}) h"

text \<open>
  A JSON value as the JavaScript value \<^verbatim>\<open>JSON.parse\<close> makes of it: the values built from
  \<^verbatim>\<open>null\<close>, booleans, finite numbers, strings, arrays and plain objects alone.
\<close>

fun of_json :: "json \<Rightarrow> jsval"
  and of_json_elements :: "json list \<Rightarrow> jsval list"
  and of_json_members :: "(string \<times> json) list \<Rightarrow> (string \<times> jsval) list"
where
  "of_json JNull = VNull"
| "of_json (JBool b) = VBool b"
| "of_json (JNumber n) = VNumber n"
| "of_json (JString s) = VString s"
| "of_json (JArray vs) = VArray (of_json_elements vs)"
| "of_json (JObject ms) = VObject (of_json_members ms)"
| "of_json_elements [] = []"
| "of_json_elements (v # vs) = of_json v # of_json_elements vs"
| "of_json_members [] = []"
| "of_json_members (m # ms) = (fst m, of_json (snd m)) # of_json_members ms"

subsection \<open>Loading an image: \<^verbatim>\<open>lib/run.js\<close>, steps 1 and 3\<close>


section \<open>The sandbox launcher: \<^verbatim>\<open>src/sandbox/main.cpp\<close>\<close>

subsection \<open>\<^verbatim>\<open>parse_args\<close>: the \<^verbatim>\<open>--env\<close> options\<close>


text \<open>
  \<^verbatim>\<open>std::map<std::string, std::string>\<close>: the entries in key order, which is the order
  of the bytes.  \<open>map_assign\<close> is \<^verbatim>\<open>m[k] = v\<close>.
\<close>

type_synonym env_map = "(string \<times> string) list"




record Args =
  rootfs :: string
  workdir :: string
  cgroup_id :: string
  mem_limit :: string
  cmd :: "string list"
  env_vars :: env_map

subsection \<open>System calls and their outcomes\<close>

text \<open>
  The places where the sandbox calls the kernel, in the order of the source.  Each is
  reached at most once in a run.
\<close>

datatype call =
    Unshare_user
  | Open_setgroups | Write_setgroups_deny
  | Open_uid_map | Write_uid_map
  | Open_gid_map | Write_gid_map
  | Unshare_pid_mnt_uts_ipc_cgroup
  | Sethostname
  | Fork
  | Waitpid
  | Mkdir_cgroup_parent | Mkdir_cgroup_leaf
  | Open_memory_max | Write_memory_max
  | Open_cgroup_procs | Write_cgroup_procs
  | Mount_root_private
  | Mount_bind_rootfs
  | Mkdir_old_root
  | Pivot_root
  | Chdir_root
  | Umount_old_root | Rmdir_old_root
  | Mount_proc | Mount_dev | Mount_sys
  | Chdir_workdir
  | Clearenv
  | Execve

text \<open>
  What the kernel answers at each place: \<open>None\<close> for success, or the \<^verbatim>\<open>errno\<close> of the
  failure.
\<close>

type_synonym outcomes = "call \<Rightarrow> nat option"

definition EEXIST :: nat where
  "EEXIST = 17"

text \<open>Which side of a successful \<^verbatim>\<open>fork\<close> the process is.\<close>

datatype fork_side = In_parent | In_child

subsection \<open>The pointers of \<^verbatim>\<open>envp\<close>\<close>

text \<open>
  \<^verbatim>\<open>main\<close> appends each environment string to the
  \<^verbatim>\<open>std::vector<std::string> env_storage\<close> and at once stores
  \<^verbatim>\<open>env_storage.back().c_str()\<close> in \<^verbatim>\<open>envp\<close>; \<^verbatim>\<open>execve\<close> reads through these pointers
  after the last append.  Whether a pointer still leads to its string then depends on how
  the library lays out vectors and strings.  This is the layout of GNU libstdc++ with the
  C++11 string: the string objects stand side by side in one allocated block; a
  \<^verbatim>\<open>push_back\<close> into a full block allocates a block of twice the capacity (of capacity
  one for the empty vector), moves the strings there and frees the old block; a string of
  at most 15 bytes keeps its characters inside the string object, a longer one in a buffer
  of its own, which a move hands to the new object.  \<open>block\<close> counts the allocations, and
  so names the current block.
\<close>

record string_vector =
  block :: nat
  capacity :: nat
  elems :: "string list"

definition empty_vector :: string_vector where
  "empty_vector = \<lparr>block = 0, capacity = 0, elems = []\<rparr>"

definition push_back :: "string \<Rightarrow> string_vector \<Rightarrow> string_vector" where
  "push_back s v =
     (if length (elems v) = capacity v
      then \<lparr>block = Suc (block v), capacity = max 1 (2 * capacity v), elems = elems v @ [s]\<rparr>
      else v\<lparr>elems := elems v @ [s]\<rparr>)"

text \<open>
  The pointer \<^verbatim>\<open>v.back().c_str()\<close>: into the current block, at the index of the last
  string, when that string is short; to the string's own buffer otherwise.
\<close>

datatype char_ptr = In_block nat nat | Own_buffer nat

definition c_str_back :: "string_vector \<Rightarrow> char_ptr" where
  "c_str_back v =
     (if length (last (elems v)) \<le> 15
      then In_block (block v) (length (elems v) - 1)
      else Own_buffer (length (elems v) - 1))"

text \<open>
  What a reader finds behind a pointer: the string, or, when the pointer leads into a
  block that has been freed, whatever that memory holds by then.
\<close>

datatype env_entry = Intact string | Dangling

definition deref :: "string_vector \<Rightarrow> char_ptr \<Rightarrow> env_entry" where
  "deref v p =
     (case p of
        In_block b i \<Rightarrow> if b = block v then Intact (elems v ! i) else Dangling
      | Own_buffer i \<Rightarrow> Intact (elems v ! i))"

text \<open>
  \<^verbatim>\<open>env_storage.push_back(s); envp.push_back(env_storage.back().c_str())\<close>, on the pair of
  the two vectors.
\<close>

definition add_env :: "string_vector \<times> char_ptr list \<Rightarrow> string \<Rightarrow> string_vector \<times> char_ptr list" where
  "add_env st s = (let v = push_back s (fst st) in (v, snd st @ [c_str_back v]))"

text \<open>
  How a process of the sandbox ends: \<^verbatim>\<open>die\<close> (exit with \<^verbatim>\<open>EXIT_FAILURE\<close>), \<^verbatim>\<open>exit\<close>
  with a code, or \<^verbatim>\<open>execve\<close> of a path with an argument vector and an environment, the
  latter as \<^verbatim>\<open>execve\<close> finds it behind the pointers of \<^verbatim>\<open>envp\<close>.
\<close>

datatype proc_end = Die | Exit_with "32 word" | Exec string "string list" "env_entry list"

subsection \<open>\<^verbatim>\<open>setup_user_namespace_mappings\<close>\<close>

text \<open>The calls made, and whether the function returned (\<open>False\<close>: it called \<^verbatim>\<open>die\<close>).\<close>

definition setup_user_namespace_mappings :: "outcomes \<Rightarrow> call list \<times> bool" where
  "setup_user_namespace_mappings oc =
     (let deny = Open_setgroups # (if oc Open_setgroups = None then [Write_setgroups_deny] else [])
      in if oc Open_uid_map \<noteq> None then (deny @ [Open_uid_map], False)
         else if oc Write_uid_map \<noteq> None then (deny @ [Open_uid_map, Write_uid_map], False)
         else if oc Open_gid_map \<noteq> None
           then (deny @ [Open_uid_map, Write_uid_map, Open_gid_map], False)
         else if oc Write_gid_map \<noteq> None
           then (deny @ [Open_uid_map, Write_uid_map, Open_gid_map, Write_gid_map], False)
         else (deny @ [Open_uid_map, Write_uid_map, Open_gid_map, Write_gid_map], True))"

subsection \<open>\<^verbatim>\<open>setup_cgroups\<close>\<close>

text \<open>Every failure here is a warning; the function always returns.\<close>

definition setup_cgroups :: "outcomes \<Rightarrow> Args \<Rightarrow> call list" where
  "setup_cgroups oc args =
     [Mkdir_cgroup_parent, Mkdir_cgroup_leaf]
     @ (if mem_limit args \<noteq> []
        then Open_memory_max # (if oc Open_memory_max = None then [Write_memory_max] else [])
        else [])
     @ Open_cgroup_procs # (if oc Open_cgroup_procs = None then [Write_cgroup_procs] else [])"

subsection \<open>\<^verbatim>\<open>setup_filesystem\<close>\<close>

definition setup_filesystem :: "outcomes \<Rightarrow> call list \<times> bool" where
  "setup_filesystem oc =
     (if oc Mount_bind_rootfs \<noteq> None then ([Mount_root_private, Mount_bind_rootfs], False)
      else if oc Mkdir_old_root \<noteq> None \<and> oc Mkdir_old_root \<noteq> Some EEXIST
        then ([Mount_root_private, Mount_bind_rootfs, Mkdir_old_root], False)
      else if oc Pivot_root \<noteq> None
        then ([Mount_root_private, Mount_bind_rootfs, Mkdir_old_root, Pivot_root], False)
      else if oc Chdir_root \<noteq> None
        then ([Mount_root_private, Mount_bind_rootfs, Mkdir_old_root, Pivot_root, Chdir_root],
              False)
      else
        let pivoted = [Mount_root_private, Mount_bind_rootfs, Mkdir_old_root, Pivot_root,
                       Chdir_root, Umount_old_root]
                      @ (if oc Umount_old_root = None then [Rmdir_old_root] else [])
        in if oc Mount_proc \<noteq> None then (pivoted @ [Mount_proc], False)
           else if oc Mount_dev \<noteq> None then (pivoted @ [Mount_proc, Mount_dev], False)
           else if oc Mount_sys \<noteq> None then (pivoted @ [Mount_proc, Mount_dev, Mount_sys], False)
           else (pivoted @ [Mount_proc, Mount_dev, Mount_sys], True))"

subsection \<open>The environment for \<^verbatim>\<open>execve\<close>\<close>

definition DEFAULT_PATH :: string where
  "DEFAULT_PATH = ''PATH=/usr/local/sbin:/usr/local/bin:/usr/sbin:/usr/bin:/sbin:/bin''"

text \<open>
  The strings \<^verbatim>\<open>main\<close> appends to \<^verbatim>\<open>env_storage\<close>, in order: one for each entry of
  \<^verbatim>\<open>args.env_vars\<close>, the default \<^verbatim>\<open>PATH\<close> when the map has no such key, the marker and
  the host name.
\<close>

definition env_strings :: "Args \<Rightarrow> string \<Rightarrow> string list" where
  "env_strings args hostname =
     map (\<lambda>pair. fst pair @ ''='' @ snd pair) (env_vars args)
     @ (if map_of (env_vars args) ''PATH'' = None then [DEFAULT_PATH] else [])
     @ [''NEOSHELL_CONTAINER=true'', ''HOSTNAME='' @ hostname]"

text \<open>
  The environment \<^verbatim>\<open>execve\<close> is given: \<^verbatim>\<open>env_storage\<close> is static and empty when the
  child gets here, each string is appended and its pointer stored, and the pointers are
  read when all strings are in.
\<close>

definition build_envp :: "Args \<Rightarrow> string \<Rightarrow> env_entry list" where
  "build_envp args hostname =
     (let st = foldl add_env (empty_vector, []) (env_strings args hostname)
      in map (deref (fst st)) (snd st))"

subsection \<open>\<^verbatim>\<open>main\<close>\<close>

text \<open>
  One process of the sandbox from the validation at the end of \<^verbatim>\<open>parse_args\<close>, which
  calls \<^verbatim>\<open>die\<close> when the root, the command or the cgroup id is missing: the calls it
  makes, in order, and how it ends.  \<open>environ\<close> is the environment the sandbox was started with;
  \<open>side\<close> and \<open>status\<close> are what \<^verbatim>\<open>fork\<close> and \<^verbatim>\<open>waitpid\<close> give when they succeed.
\<close>

definition child_main :: "outcomes \<Rightarrow> Args \<Rightarrow> string \<Rightarrow> string list \<Rightarrow> call list \<times> proc_end" where
  "child_main oc args hostname environ =
     (let cg = setup_cgroups oc args in
      case setup_filesystem oc of
        (fs, False) \<Rightarrow> (cg @ fs, Die)
      | (fs, True) \<Rightarrow>
          if oc Chdir_workdir \<noteq> None then (cg @ fs @ [Chdir_workdir], Die)
          else
            let environ' = [] :: string list;
                envp = build_envp args hostname
            in if oc Execve \<noteq> None
               then (cg @ fs @ [Chdir_workdir, Clearenv, Execve], Die)
               else (cg @ fs @ [Chdir_workdir, Clearenv, Execve],
                     Exec (hd (cmd args)) (cmd args) envp))"

definition main :: "outcomes \<Rightarrow> fork_side \<Rightarrow> 32 word \<Rightarrow> Args \<Rightarrow> string list \<Rightarrow> call list \<times> proc_end" where
  "main oc side status args environ =
     (if rootfs args = [] \<or> cmd args = [] \<or> cgroup_id args = [] then ([], Die)
      else if oc Unshare_user \<noteq> None then ([Unshare_user], Die)
      else
        case setup_user_namespace_mappings oc of
          (maps, False) \<Rightarrow> (Unshare_user # maps, Die)
        | (maps, True) \<Rightarrow>
            if oc Unshare_pid_mnt_uts_ipc_cgroup \<noteq> None
            then (Unshare_user # maps @ [Unshare_pid_mnt_uts_ipc_cgroup], Die)
            else
              let hostname = take 63 (cgroup_id args);
                  before = Unshare_user # maps @ [Unshare_pid_mnt_uts_ipc_cgroup, Sethostname, Fork]
              in if oc Fork \<noteq> None then (before, Die)
                 else
                   (case side of
                      In_parent \<Rightarrow>
                        if oc Waitpid \<noteq> None then (before @ [Waitpid], Exit_with 1)
                        else (before @ [Waitpid], Exit_with (sandbox_parent_exit status))
                    | In_child \<Rightarrow>
                        (case child_main oc args hostname environ of
                           (calls, e) \<Rightarrow> (before @ calls, e))))"

subsection \<open>The older run path builds the environment\<close>



subsection \<open>The stages of the launcher\<close>

text \<open>
  The stages the specification names (U: user namespace; N: the other namespaces; F: fork;
  C: cgroup limits; R: pivot of the root; M: the virtual file systems; W: working
  directory; E: environment and exec), their order, and the stage each call belongs to.
\<close>

datatype stage = Stage_U | Stage_N | Stage_F | Stage_C | Stage_R | Stage_M | Stage_W | Stage_E

definition stage_order :: "stage list" where
  "stage_order = [Stage_U, Stage_N, Stage_F, Stage_C, Stage_R, Stage_M, Stage_W, Stage_E]"

fun stage_of :: "call \<Rightarrow> stage" where
  "stage_of Unshare_user = Stage_U"
| "stage_of Open_setgroups = Stage_U"
| "stage_of Write_setgroups_deny = Stage_U"
| "stage_of Open_uid_map = Stage_U"
| "stage_of Write_uid_map = Stage_U"
| "stage_of Open_gid_map = Stage_U"
| "stage_of Write_gid_map = Stage_U"
| "stage_of Unshare_pid_mnt_uts_ipc_cgroup = Stage_N"
| "stage_of Sethostname = Stage_N"
| "stage_of Fork = Stage_F"
| "stage_of Waitpid = Stage_F"
| "stage_of Mkdir_cgroup_parent = Stage_C"
| "stage_of Mkdir_cgroup_leaf = Stage_C"
| "stage_of Open_memory_max = Stage_C"
| "stage_of Write_memory_max = Stage_C"
| "stage_of Open_cgroup_procs = Stage_C"
| "stage_of Write_cgroup_procs = Stage_C"
| "stage_of Mount_root_private = Stage_R"
| "stage_of Mount_bind_rootfs = Stage_R"
| "stage_of Mkdir_old_root = Stage_R"
| "stage_of Pivot_root = Stage_R"
| "stage_of Chdir_root = Stage_R"
| "stage_of Umount_old_root = Stage_R"
| "stage_of Rmdir_old_root = Stage_R"
| "stage_of Mount_proc = Stage_M"
| "stage_of Mount_dev = Stage_M"
| "stage_of Mount_sys = Stage_M"
| "stage_of Chdir_workdir = Stage_W"
| "stage_of Clearenv = Stage_E"
| "stage_of Execve = Stage_E"

text \<open>The stages a run goes through: the stages of its calls, each once.\<close>

definition stages :: "call list \<Rightarrow> stage list" where
  "stages calls = remdups_adj (map stage_of calls)"

text \<open>
  The calls of a run that reaches the program, written out: the only variation is in the
  calls that follow a tolerated failure.
\<close>

definition success_calls :: "outcomes \<Rightarrow> Args \<Rightarrow> call list" where
  "success_calls oc args =
     [Unshare_user, Open_setgroups]
     @ (if oc Open_setgroups = None then [Write_setgroups_deny] else [])
     @ [Open_uid_map, Write_uid_map, Open_gid_map, Write_gid_map,
        Unshare_pid_mnt_uts_ipc_cgroup, Sethostname,
        Fork,
        Mkdir_cgroup_parent, Mkdir_cgroup_leaf]
     @ (if mem_limit args \<noteq> []
        then Open_memory_max # (if oc Open_memory_max = None then [Write_memory_max] else [])
        else [])
     @ Open_cgroup_procs # (if oc Open_cgroup_procs = None then [Write_cgroup_procs] else [])
     @ [Mount_root_private, Mount_bind_rootfs, Mkdir_old_root, Pivot_root, Chdir_root,
        Umount_old_root]
     @ (if oc Umount_old_root = None then [Rmdir_old_root] else [])
     @ [Mount_proc, Mount_dev, Mount_sys,
        Chdir_workdir,
        Clearenv, Execve]"

text \<open>
  In a list of calls, \<open>a\<close> comes before \<open>b\<close>: both are made, and no \<open>b\<close> is made before
  the first \<open>a\<close>.
\<close>

definition precedes :: "call \<Rightarrow> call \<Rightarrow> call list \<Rightarrow> bool" where
  "precedes a b calls =
     (a \<in> set calls \<and> b \<in> set (dropWhile (\<lambda>x. x \<noteq> a) calls)
      \<and> b \<notin> set (takeWhile (\<lambda>x. x \<noteq> a) calls))"

section \<open>Concrete inputs\<close>

text \<open>Every system call succeeds.\<close>

definition all_succeed :: outcomes where
  "all_succeed c = None"

text \<open>The arguments of a run of \<^verbatim>\<open>/bin/sh -c true\<close> with one variable and no memory limit.\<close>

definition example_args :: Args where
  "example_args =
     \<lparr>rootfs = ''/tmp/neoshell-1a2b3c4d-rootfs-x'', workdir = ''/app'', cgroup_id = ''1a2b3c4d'',
      mem_limit = '''', cmd = [''/bin/sh'', ''-c'', ''true''],
      env_vars = [(''NODE_ENV'', ''production'')]\<rparr>"

text \<open>An image file with a one-byte header, the JSON text \<^verbatim>\<open>7\<close>, and no payload.\<close>

definition one_byte_header_image :: bytes where
  "one_byte_header_image =
     ''NSI!'' @ [CHR 0x00, CHR 0x00, CHR 0x00, CHR 0x01] @ [CHR 0x00, CHR 0x00, CHR 0x00, CHR 0x01]
     @ ''7''"

text \<open>
  An image file with the header \<^verbatim>\<open>{}\<close> and three payload bytes, as a stream delivers it
  in three chunks and in one.
\<close>

definition example_chunks :: "bytes list" where
  "example_chunks =
     [''NSI!'' @ [CHR 0x00, CHR 0x00],
      [CHR 0x00, CHR 0x01, CHR 0x00, CHR 0x00, CHR 0x00, CHR 0x02] @ ''{}'' @ ''x'',
      ''yz'']"

text \<open>Sixty-four zero bytes.\<close>

definition zero_file :: bytes where
  "zero_file = replicate 64 (CHR 0x00)"

text \<open>
  The twelve fixed bytes with the right magic and version and the header length
  \<^verbatim>\<open>0xFFFFFFFF\<close>, and nothing after them.
\<close>

definition oversized_header_image :: bytes where
  "oversized_header_image =
     ''NSI!'' @ [CHR 0x00, CHR 0x00, CHR 0x00, CHR 0x01] @ [CHR 0xFF, CHR 0xFF, CHR 0xFF, CHR 0xFF]"

text \<open>
  The same twelve bytes followed by the two bytes \<^verbatim>\<open>{}\<close>, as one chunk, and as a stream
  delivers them in three chunks that a fourth follows.
\<close>

definition oversized_one_chunk :: "bytes list" where
  "oversized_one_chunk = [oversized_header_image @ ''{}'']"

definition oversized_chunks :: "bytes list" where
  "oversized_chunks =
     [''NSI!'' @ [CHR 0x00, CHR 0x00],
      [CHR 0x00, CHR 0x01],
      [CHR 0xFF, CHR 0xFF, CHR 0xFF, CHR 0xFF] @ ''{}'',
      ''more'']"

text \<open>
  Functions to stand in the examples where tar-fs, zlib and SHA-256 stand in a run.  They
  are not those libraries: a packer of a flat list of files, each written as the length of
  its name, the length of its content, the name and the content, with the extractor that
  reads this back; a compressor that stores the bytes after one tag byte, with its
  decompressor; and a digest that is the decimal length of the bytes.
\<close>

type_synonym file_list = "(string \<times> bytes) list"

definition list_pack :: "file_list option \<Rightarrow> string + bytes" where
  "list_pack tree =
     (case tree of
        None \<Rightarrow> Inl ''ENOENT''
      | Some entries \<Rightarrow>
          if list_all (\<lambda>e. length (fst e) < 256 \<and> length (snd e) < 256) entries
          then Inr (concat (map (\<lambda>e. char_of (length (fst e)) # char_of (length (snd e))
                                       # fst e @ snd e) entries))
          else Inl ''entry too long'')"



definition store_deflate :: "bytes \<Rightarrow> string + bytes" where
  "store_deflate b = Inr (CHR ''S'' # b)"


definition length_digest :: "bytes \<Rightarrow> string" where
  "length_digest b = show_nat (length b)"

definition example_platform :: "file_list platform" where
  "example_platform =
     \<lparr>tar_pack = list_pack,
      sha256_hex = length_digest,
      now_iso = ''2026-11-02T00:00:00.000Z'',
      deflate = store_deflate,
      write_fault = WriteOk\<rparr>"

text \<open>The same when the disk is full after four bytes.\<close>

definition disk_full_platform :: "file_list platform" where
  "disk_full_platform = example_platform\<lparr>write_fault := WriteFailedAfter 4 ''ENOSPC''\<rparr>"

text \<open>A directory with the one file \<^verbatim>\<open>hello.txt\<close>, holding \<^verbatim>\<open>hi\<close> and a line feed.\<close>

definition example_dir :: file_list where
  "example_dir = [(''hello.txt'', ''hi'' @ [CHR 0x0A])]"

text \<open>What \<open>list_pack\<close> makes of it, and \<open>store_deflate\<close> of that.\<close>

definition example_raw :: bytes where
  "example_raw = [CHR 0x09, CHR 0x03] @ ''hello.txt'' @ ''hi'' @ [CHR 0x0A]"

definition example_zp :: bytes where
  "example_zp = CHR ''S'' # example_raw"

text \<open>The header template \<^verbatim>\<open>lib/build.js\<close> makes for an image named \<^verbatim>\<open>h\<close>.\<close>

definition example_header :: obj where
  "example_header =
     [(''imageName'', VString ''h''),
      (''version'', VString ''0.1''),
      (''created'', VNull),
      (''hash'', VNull),
      (''size'', VNull),
      (''runtime'', VObject
         [(''cmd'', VArray [VString ''/bin/sh'', VString ''-c'', VString ''cat /app/hello.txt'']),
          (''workDir'', VString ''/app''),
          (''env'', VObject [])])]"

definition example_world :: "file_list world" where
  "example_world =
     \<lparr>files = Map.empty, dirs = [''/src/app'' \<mapsto> example_dir], headerJson = example_header\<rparr>"

text \<open>
  The template for a configuration whose \<^verbatim>\<open>runtime.env\<close> is the YAML mapping
  \<^verbatim>\<open>RATIO: .nan\<close>, for which \<^verbatim>\<open>yaml.load\<close> gives the number \<^verbatim>\<open>NaN\<close>.
\<close>

definition nan_header :: obj where
  "nan_header =
     [(''imageName'', VString ''h''),
      (''version'', VString ''0.1''),
      (''created'', VNull),
      (''hash'', VNull),
      (''size'', VNull),
      (''runtime'', VObject
         [(''cmd'', VArray [VString ''/bin/true'']),
          (''workDir'', VString ''/app''),
          (''env'', VObject [(''RATIO'', VNonFinite)])])]"

definition nan_world :: "file_list world" where
  "nan_world =
     \<lparr>files = Map.empty, dirs = [''/src/app'' \<mapsto> example_dir], headerJson = nan_header\<rparr>"

text \<open>
  Five buffers as the build command writes them: magic, version, header length, a compact
  JSON header, and a payload, here the zlib stream of 1024 zero bytes.
\<close>

definition zlib_of_1024_zeros :: bytes where
  "zlib_of_1024_zeros =
     [CHR 0x78, CHR 0xda, CHR 0x63, CHR 0x60, CHR 0x18, CHR 0x05, CHR 0xa3, CHR 0x60, CHR 0x14,
      CHR 0x8c, CHR 0x54, CHR 0x00, CHR 0x00, CHR 0x04, CHR 0x00, CHR 0x00, CHR 0x01]"

definition example_compact_header :: bytes where
  "example_compact_header =
     ''{'' @ quote ''imageName'' @ '':'' @ quote ''h'' @ '','' @ quote ''version'' @ '':''
       @ quote ''0.1'' @ '','' @ quote ''schemaVersion'' @ '':1,'' @ quote ''created'' @ '':''
       @ quote ''2026-11-02T00:00:00.000Z'' @ '','' @ quote ''sizeKB'' @ '':1,''
       @ quote ''hash'' @ '':''
       @ quote ''5f70bf18a086007016e948b04aed3b82103a36bea41755b6cddfaf10ace3c6ef'' @ '',''
       @ quote ''workDir'' @ '':'' @ quote ''/app'' @ '','' @ quote ''cmd'' @ '':[''
       @ quote ''/bin/true'' @ ''],'' @ quote ''env'' @ '':{}}''"

definition example_pieces :: "bytes list" where
  "example_pieces =
     [''NSI!'', [CHR 0x00, CHR 0x00, CHR 0x00, CHR 0x01],
      the (writeUInt32BE (length example_compact_header)),
      example_compact_header, zlib_of_1024_zeros]"

text \<open>
  How the five writes can end: each writes its whole buffer; the fourth, of the header,
  writes ten bytes only; the third throws.
\<close>

definition all_written :: "nat \<Rightarrow> write_result" where
  "all_written i = Wrote (2 ^ 32)"

definition short_header_write :: "nat \<Rightarrow> write_result" where
  "short_header_write i = (if i = 3 then Wrote 10 else Wrote (2 ^ 32))"

definition third_write_throws :: "nat \<Rightarrow> write_result" where
  "third_write_throws i = (if i = 2 then Write_throws else Wrote (2 ^ 32))"









section \<open>Theorems: exit status forwarding\<close>

lemma mask_ff00: "(0xff00 :: 32 word) = push_bit 8 (mask 8)"
  by (simp add: mask_eq_exp_minus_1)

lemma mask_ff: "(0xff :: 32 word) = mask 8"
  by (simp add: mask_eq_exp_minus_1)

lemma exit_code_field:
  "drop_bit 8 (push_bit 8 w AND push_bit 8 (mask 8)) = w AND mask 8" for w :: "32 word"
  by (rule bit_eqI) (auto simp: bit_simps)

lemma low_byte_of_nat:
  "(word_of_nat (k mod 256) :: 32 word) AND mask 8 = word_of_nat (k mod 256)"
proof -
  have "k mod 256 = take_bit 8 k" by (simp add: take_bit_eq_mod)
  then show ?thesis
    by (simp add: of_nat_take_bit flip: take_bit_eq_mask)
qed

lemma unat_low_byte: "unat (word_of_nat (k mod 256) :: 32 word) = k mod 256"
proof -
  have "k mod 256 < 2 ^ 32" by (rule less_le_trans [of _ 256]) simp_all
  then show ?thesis by (simp add: unat_of_nat take_bit_nat_eq_self)
qed

lemma signal_has_no_exit_code:
  "drop_bit 8 ((word_of_nat (s mod 128) OR (if c then 0x80 else 0 :: 32 word))
     AND push_bit 8 (mask 8)) = 0"
proof -
  have "s mod 128 = take_bit 7 s" by (simp add: take_bit_eq_mod)
  then show ?thesis
    by (auto simp add: of_nat_take_bit bit_simps intro!: bit_eqI)
qed

text \<open>A child that exits normally: the sandbox parent forwards its code.\<close>

lemma sandbox_parent_exit_normal:
  "observed_exit (sandbox_parent_exit (wait_status (Exited k))) = k mod 256"
proof -
  have "WEXITSTATUS (wait_status (Exited k)) = word_of_nat (k mod 256)"
    unfolding WEXITSTATUS_def wait_status_def child_end.case mask_ff00
    by (simp only: exit_code_field low_byte_of_nat)
  then show ?thesis
    unfolding observed_exit_def sandbox_parent_exit_def mask_ff
    by (simp only: low_byte_of_nat unat_low_byte)
qed

text \<open>
  The older launcher (\<^verbatim>\<open>container_launcher.cpp\<close>) tests \<^verbatim>\<open>WIFSIGNALED\<close> and returns
  128 plus the signal: for SIGKILL (9) it returns 137.
\<close>

lemma launcher_exit_status_SIGKILL:
  "observed_exit (launcher_exit_status (wait_status (Signaled 9 False))) = 128 + 9"
  by (simp add: observed_exit_def launcher_exit_status_def WIFEXITED_def WIFSIGNALED_def
      WTERMSIG_def wait_status_def)

text \<open>
  Claim C1 (exit-code propagation: a child killed by signal \<open>s\<close> makes the outer process
  exit with \<open>128 + s\<close>).  The parent branch of the sandbox's \<^verbatim>\<open>main\<close> does not do this:
  it exits with \<^verbatim>\<open>WEXITSTATUS(status)\<close> whatever happened, and for a child killed by
  any signal, with or without a core dump, that value is 0.
\<close>

theorem sandbox_parent_exit_signalled:
  "observed_exit (sandbox_parent_exit (wait_status (Signaled s core))) = 0"
proof -
  have "WEXITSTATUS (wait_status (Signaled s core)) = 0"
    unfolding WEXITSTATUS_def wait_status_def child_end.case mask_ff00
    by (rule signal_has_no_exit_code)
  then show ?thesis
    by (simp add: observed_exit_def sandbox_parent_exit_def)
qed

section \<open>Theorems: JSON text\<close>

text \<open>
  \<^verbatim>\<open>JSON.parse\<close> reads back what \<^verbatim>\<open>JSON.stringify(value, null, 2)\<close> writes: first
  strings, then numbers, then values by induction on their structure.
\<close>

lemma skip_ws_nl_indent: "skip_ws (nl_indent i @ s) = skip_ws s"
  by (simp add: skip_ws_def nl_indent_def is_ws_def dropWhile_append)

lemma skip_ws_start: "\<not> is_ws c \<Longrightarrow> skip_ws (c # cs) = c # cs"
  by (simp add: skip_ws_def)

lemma hex_digit_cases:
  assumes "k < 16"
  shows "is_hex (''0123456789abcdef'' ! k) \<and> hex_val (''0123456789abcdef'' ! k) = k"
proof -
  from assms have "k = 0 \<or> k = 1 \<or> k = 2 \<or> k = 3 \<or> k = 4 \<or> k = 5 \<or> k = 6 \<or> k = 7
    \<or> k = 8 \<or> k = 9 \<or> k = 10 \<or> k = 11 \<or> k = 12 \<or> k = 13 \<or> k = 14 \<or> k = 15"
    by arith
  then show ?thesis
    by (elim disjE) (simp_all add: is_hex_def is_digit_def hex_val_def)
qed

lemma is_hex_hex_digit: "is_hex (hex_digit n)"
  using hex_digit_cases [of "n mod 16"] by (simp add: hex_digit_def)

lemma hex_val_hex_digit: "hex_val (hex_digit n) = n mod 16"
  using hex_digit_cases [of "n mod 16"] by (simp add: hex_digit_def)

lemma parse_chars_quote_char:
  "parse_chars (quote_char c @ t) = map_option (\<lambda>(r, rest). (c # r, rest)) (parse_chars t)"
proof -
  consider (b) "c = CHR 0x08" | (t) "c = CHR 0x09" | (n) "c = CHR 0x0A" | (f) "c = CHR 0x0C"
    | (r) "c = CHR 0x0D" | (q) "c = CHR 0x22" | (bs) "c = CHR 0x5C"
    | (ctl) "c \<notin> {CHR 0x08, CHR 0x09, CHR 0x0A, CHR 0x0C, CHR 0x0D, CHR 0x22, CHR 0x5C}" "(of_char c :: nat) < 0x20"
    | (plain) "c \<notin> {CHR 0x08, CHR 0x09, CHR 0x0A, CHR 0x0C, CHR 0x0D, CHR 0x22, CHR 0x5C}" "\<not> (of_char c :: nat) < 0x20"
    by blast
  then show ?thesis
  proof cases
    case ctl
    let ?n = "of_char c :: nat"
    have zero: "hex_val (CHR ''0'') = 0"
      by (simp add: hex_val_def is_digit_def)
    have digits: "code_unit [CHR ''0'', CHR ''0'', hex_digit (?n div 16), hex_digit ?n] = ?n"
      using ctl(2) by (simp add: code_unit_def hex_val_hex_digit zero)
    have "utf8 ?n = [c]"
      using ctl(2) by (simp add: utf8_def)
    moreover have "is_hex (CHR ''0'')"
      by (simp add: is_hex_def is_digit_def)
    ultimately show ?thesis
      using digits ctl by (simp add: quote_char_def is_hex_hex_digit)
  qed (simp_all add: quote_char_def unescape_def)
qed

lemma parse_chars_quoted:
  "parse_chars (concat (map quote_char s) @ CHR 0x22 # rest) = Some (s, rest)"
  by (induction s) (simp_all add: parse_chars_quote_char)

lemma parse_chars_quote: "parse_chars (tl (quote s) @ rest) = Some (s, rest)"
  by (simp add: quote_def parse_chars_quoted)


lemma value_end_not_digit:
  "value_end rest \<Longrightarrow> takeWhile is_digit rest = [] \<and> dropWhile is_digit rest = rest"
  by (cases rest) (auto simp add: value_end_def is_digit_def)

lemma take_digits_append:
  assumes "take_digits s = (ds, r)" and "r = [] \<longrightarrow> value_end rest"
  shows "take_digits (s @ rest) = (ds, r @ rest)"
proof (cases "\<forall>x\<in>set s. is_digit x")
  case True
  then have "takeWhile is_digit s = s" "dropWhile is_digit s = []"
    by simp_all
  with assms have "ds = s" "r = []" "value_end rest"
    by (simp_all add: take_digits_def)
  with True show ?thesis
    using value_end_not_digit [of rest]
    by (simp add: take_digits_def takeWhile_append2 dropWhile_append2)
next
  case False
  then obtain x where "x \<in> set s" "\<not> is_digit x"
    by blast
  then have "takeWhile is_digit (s @ rest) = takeWhile is_digit s"
    "dropWhile is_digit (s @ rest) = dropWhile is_digit s @ rest"
    by (simp_all add: takeWhile_append1 dropWhile_append1)
  with assms show ?thesis
    by (simp add: take_digits_def)
qed

lemma parse_int_part_append:
  assumes "parse_int_part s = Some (a, r)" and "r = [] \<longrightarrow> value_end rest"
  shows "parse_int_part (s @ rest) = Some (a, r @ rest)"
proof (cases s)
  case Nil
  with assms show ?thesis by (simp add: parse_int_part_def)
next
  case (Cons c cs)
  show ?thesis
  proof (cases "c = CHR ''0''")
    case True
    with Cons assms show ?thesis by (simp add: parse_int_part_def)
  next
    case False
    with Cons assms obtain ds where d: "is_digit c" "take_digits cs = (ds, r)" "a = c # ds"
      by (auto simp add: parse_int_part_def split: if_splits prod.splits)
    from take_digits_append [OF d(2) assms(2)] d False Cons show ?thesis
      by (simp add: parse_int_part_def)
  qed
qed

lemma value_end_head:
  "value_end rest \<Longrightarrow> rest = [] \<or> (\<exists>c cs. rest = c # cs \<and> (c = CHR '','' \<or> c = CHR 0x0A))"
  by (cases rest) (simp_all add: value_end_def)

lemma parse_frac_append:
  assumes "parse_frac s = Some (a, r)" and "r = [] \<longrightarrow> value_end rest"
  shows "parse_frac (s @ rest) = Some (a, r @ rest)"
proof (cases s)
  case Nil
  with assms have "a = []" "r = []" "value_end rest"
    by (simp_all add: parse_frac_def)
  with Nil show ?thesis
    using value_end_head [of rest] by (auto simp add: parse_frac_def)
next
  case (Cons c cs)
  show ?thesis
  proof (cases "c = CHR ''.''")
    case False
    with Cons assms have "a = []" "r = s"
      by (simp_all add: parse_frac_def)
    with Cons False show ?thesis by (simp add: parse_frac_def)
  next
    case True
    with Cons assms obtain ds where d: "take_digits cs = (ds, r)" "ds \<noteq> []" "a = c # ds"
      by (auto simp add: parse_frac_def split: if_splits prod.splits)
    from take_digits_append [OF d(1) assms(2)] d True Cons show ?thesis
      by (simp add: parse_frac_def)
  qed
qed

lemma parse_exp_append:
  assumes "parse_exp s = Some (a, r)" and "r = [] \<longrightarrow> value_end rest"
  shows "parse_exp (s @ rest) = Some (a, r @ rest)"
proof (cases s)
  case Nil
  with assms have "a = []" "r = []" "value_end rest"
    by (simp_all add: parse_exp_def)
  with Nil show ?thesis
    using value_end_head [of rest] by (auto simp add: parse_exp_def)
next
  case (Cons c cs)
  show ?thesis
  proof (cases "c = CHR ''e'' \<or> c = CHR ''E''")
    case False
    with Cons assms have "a = []" "r = s"
      by (simp_all add: parse_exp_def)
    with Cons False show ?thesis by (simp add: parse_exp_def)
  next
    case True
    define sg where "sg = (case cs of d # r \<Rightarrow> if d = CHR ''+'' \<or> d = CHR ''-'' then [d] else [] | [] \<Rightarrow> [])"
    define cs' where "cs' = (case cs of d # r \<Rightarrow> if d = CHR ''+'' \<or> d = CHR ''-'' then r else cs | [] \<Rightarrow> cs)"
    have split: "(case cs of d # r \<Rightarrow> if d = CHR ''+'' \<or> d = CHR ''-'' then ([d], r) else ([], cs)
                   | [] \<Rightarrow> ([], cs)) = (sg, cs')"
      by (simp add: sg_def cs'_def split: list.splits)
    with Cons True assms obtain ds where d: "take_digits cs' = (ds, r)" "ds \<noteq> []" "a = c # sg @ ds"
      by (auto simp add: parse_exp_def split: if_splits prod.splits)
    have nonempty: "cs' \<noteq> []"
      using d by (auto simp add: take_digits_def)
    then have cs: "cs \<noteq> []"
      by (auto simp add: cs'_def)
    have split': "(case cs @ rest of d # r \<Rightarrow> if d = CHR ''+'' \<or> d = CHR ''-'' then ([d], r) else ([], cs @ rest)
                   | [] \<Rightarrow> ([], cs @ rest)) = (sg, cs' @ rest)"
      using cs by (cases cs) (simp_all add: sg_def cs'_def)
    from take_digits_append [OF d(1) assms(2)] d True Cons split' show ?thesis
      by (simp add: parse_exp_def)
  qed
qed

lemma parse_frac_Nil: "parse_frac [] = Some ([], [])"
  by (simp add: parse_frac_def)

lemma parse_exp_Nil: "parse_exp [] = Some ([], [])"
  by (simp add: parse_exp_def)

lemma parse_number_append:
  assumes "parse_number s = Some (a, r)" and "r = [] \<longrightarrow> value_end rest"
  shows "parse_number (s @ rest) = Some (a, r @ rest)"
proof -
  define sg where "sg = (case s of c # cs \<Rightarrow> if c = CHR ''-'' then [c] else [] | [] \<Rightarrow> [])"
  define s1 where "s1 = (case s of c # cs \<Rightarrow> if c = CHR ''-'' then cs else s | [] \<Rightarrow> s)"
  have split: "(case s of c # cs \<Rightarrow> if c = CHR ''-'' then ([c], cs) else ([], s) | [] \<Rightarrow> ([], s)) = (sg, s1)"
    by (simp add: sg_def s1_def split: list.splits)
  with assms obtain ip s2 fp s3 ep where
    p: "parse_int_part s1 = Some (ip, s2)" "parse_frac s2 = Some (fp, s3)"
       "parse_exp s3 = Some (ep, r)" "a = sg @ ip @ fp @ ep"
    by (auto simp add: parse_number_def split: option.splits prod.splits)
  have s1: "s1 \<noteq> []"
    using p(1) by (auto simp add: parse_int_part_def)
  then have s: "s \<noteq> []"
    by (auto simp add: s1_def)
  have split': "(case s @ rest of c # cs \<Rightarrow> if c = CHR ''-'' then ([c], cs) else ([], s @ rest)
                  | [] \<Rightarrow> ([], s @ rest)) = (sg, s1 @ rest)"
    using s by (cases s) (simp_all add: sg_def s1_def)
  have e3: "s3 = [] \<longrightarrow> value_end rest"
    using p(3) assms(2) by (auto simp add: parse_exp_Nil)
  have e2: "s2 = [] \<longrightarrow> value_end rest"
    using p(2) e3 by (auto simp add: parse_frac_Nil)
  from parse_int_part_append [OF p(1) e2] parse_frac_append [OF p(2) e3]
    parse_exp_append [OF p(3) assms(2)] split' p(4)
  show ?thesis
    by (simp add: parse_number_def)
qed

lemma number_text_parses:
  "number_text n \<Longrightarrow> value_end rest \<Longrightarrow> parse_number (n @ rest) = Some (n, rest)"
  using parse_number_append [of n n "[]" rest] by (simp add: number_text_def)

lemma parse_int_part_start:
  "parse_int_part s = Some (a, r) \<Longrightarrow> \<exists>c cs. s = c # cs \<and> is_digit c"
  by (cases s) (auto simp add: parse_int_part_def is_digit_def split: if_splits)

lemma number_text_start:
  assumes "number_text n"
  shows "\<exists>c cs. n = c # cs \<and> (c = CHR ''-'' \<or> is_digit c)"
proof (cases n)
  case Nil
  with assms show ?thesis
    by (simp add: number_text_def parse_number_def parse_int_part_def)
next
  case (Cons c cs)
  show ?thesis
  proof (cases "c = CHR ''-''")
    case True
    with Cons show ?thesis by simp
  next
    case False
    with Cons assms obtain a r where "parse_int_part (c # cs) = Some (a, r)"
      by (auto simp add: number_text_def parse_number_def split: option.splits)
    from parse_int_part_start [OF this] Cons show ?thesis
      by simp
  qed
qed


lemma skip_ws_prefix:
  "\<forall>c\<in>set ws. is_ws c \<Longrightarrow> skip_ws (ws @ s) = skip_ws s"
  by (simp add: skip_ws_def dropWhile_append)

lemma nl_indent_ws: "\<forall>c\<in>set (nl_indent i). is_ws c"
  by (simp add: nl_indent_def is_ws_def)

lemma value_end_nl_indent: "value_end (nl_indent k @ s)"
  by (simp add: value_end_def nl_indent_def)

lemma value_end_comma: "value_end (CHR '','' # s)"
  by (simp add: value_end_def)

lemma number_start_plain:
  assumes "c = CHR ''-'' \<or> is_digit c"
  shows "\<not> is_ws c \<and> c \<noteq> CHR ''{'' \<and> c \<noteq> CHR ''['' \<and> c \<noteq> CHR 0x22 \<and> c \<noteq> CHR ''t''
    \<and> c \<noteq> CHR ''f'' \<and> c \<noteq> CHR ''n'' \<and> c \<noteq> CHR '']'' \<and> c \<noteq> CHR ''}''"
  using assms by (auto simp add: is_digit_def is_ws_def)

lemma parse_value_number:
  assumes "number_text n" and "value_end rest" and "\<forall>c\<in>set ws. is_ws c"
  shows "parse_value (Suc k) (ws @ n @ rest) = Some (JNumber n, rest)"
proof -
  from number_text_start [OF assms(1)] obtain c cs where n: "n = c # cs" "c = CHR ''-'' \<or> is_digit c"
    by blast
  note plain = number_start_plain [OF n(2)]
  have "skip_ws (ws @ n @ rest) = c # cs @ rest"
    using assms(3) plain n(1) by (simp add: skip_ws_prefix skip_ws_start)
  moreover have "parse_number (c # cs @ rest) = Some (n, rest)"
    using number_text_parses [OF assms(1,2)] n(1) by simp
  ultimately show ?thesis
    using plain by simp
qed

lemma parse_value_string:
  assumes "\<forall>c\<in>set ws. is_ws c"
  shows "parse_value (Suc k) (ws @ quote s @ rest) = Some (JString s, rest)"
proof -
  have "skip_ws (ws @ quote s @ rest) = CHR 0x22 # concat (map quote_char s) @ CHR 0x22 # rest"
    using assms by (simp add: skip_ws_prefix skip_ws_start quote_def is_ws_def)
  then show ?thesis
    by (simp add: parse_chars_quoted)
qed

lemma parse_value_literal:
  assumes "\<forall>c\<in>set ws. is_ws c"
  shows "parse_value (Suc k) (ws @ ''null'' @ rest) = Some (JNull, rest)"
    and "parse_value (Suc k) (ws @ ''true'' @ rest) = Some (JBool True, rest)"
    and "parse_value (Suc k) (ws @ ''false'' @ rest) = Some (JBool False, rest)"
  using assms by (simp_all add: skip_ws_prefix skip_ws_start is_ws_def parse_literal_def)

lemma stringify_start:
  "valid_json v \<Longrightarrow> \<exists>c cs. stringify i v = c # cs \<and> \<not> is_ws c \<and> c \<noteq> CHR '']''"
proof (cases v)
  case (JNumber n)
  assume "valid_json v"
  with JNumber have "number_text n" by simp
  from number_text_start [OF this] obtain c cs where "n = c # cs" "c = CHR ''-'' \<or> is_digit c"
    by blast
  with number_start_plain [of c] JNumber show ?thesis
    by simp
qed (simp_all add: is_ws_def quote_def)

lemma parse_value_empty:
  assumes "\<forall>c\<in>set ws. is_ws c"
  shows "parse_value (Suc k) (ws @ ''[]'' @ rest) = Some (JArray [], rest)"
    and "parse_value (Suc k) (ws @ ''{}'' @ rest) = Some (JObject [], rest)"
  using assms by (simp_all add: skip_ws_prefix skip_ws_start is_ws_def)

lemma parse_value_array:
  assumes ws: "\<forall>c\<in>set ws. is_ws c" and v: "valid_json v"
    and elems: "parse_elements k (nl_indent j @ stringify j v @ t) = Some (vs, rest)"
  shows "parse_value (Suc k) (ws @ ''['' @ nl_indent j @ stringify j v @ t) = Some (JArray vs, rest)"
proof -
  from stringify_start [OF v] obtain c cs where c: "stringify j v = c # cs" "\<not> is_ws c" "c \<noteq> CHR '']''"
    by blast
  have "skip_ws (nl_indent j @ stringify j v @ t) = c # cs @ t"
    using c by (simp add: skip_ws_nl_indent skip_ws_start)
  moreover have "skip_ws (ws @ ''['' @ nl_indent j @ stringify j v @ t) = CHR ''['' # nl_indent j @ stringify j v @ t"
    using ws by (simp add: skip_ws_prefix skip_ws_start is_ws_def)
  ultimately show ?thesis
    using c(3) elems by simp
qed

lemma parse_value_object:
  assumes ws: "\<forall>c\<in>set ws. is_ws c"
    and membs: "parse_members k (nl_indent j @ quote key @ t) = Some (ms, rest)"
  shows "parse_value (Suc k) (ws @ ''{'' @ nl_indent j @ quote key @ t) = Some (JObject ms, rest)"
proof -
  have "skip_ws (nl_indent j @ quote key @ t) = CHR 0x22 # tl (quote key) @ t"
    by (simp add: skip_ws_nl_indent skip_ws_start quote_def is_ws_def)
  moreover have "skip_ws (ws @ ''{'' @ nl_indent j @ quote key @ t) = CHR ''{'' # nl_indent j @ quote key @ t"
    using ws by (simp add: skip_ws_prefix skip_ws_start is_ws_def)
  ultimately show ?thesis
    using membs by simp
qed

lemma parse_elements_step:
  assumes "parse_value k s = Some (v, CHR '','' # t)" and "parse_elements k t = Some (vs, rest)"
  shows "parse_elements (Suc k) s = Some (v # vs, rest)"
  using assms by (simp add: skip_ws_start is_ws_def)

lemma parse_elements_last:
  assumes "parse_value k s = Some (v, nl_indent j @ CHR '']'' # rest)"
  shows "parse_elements (Suc k) s = Some ([v], rest)"
  using assms by (simp add: skip_ws_nl_indent skip_ws_start is_ws_def)

lemma parse_members_step:
  assumes "parse_value k (CHR '' '' # s) = Some (v, CHR '','' # t)" and "parse_members k t = Some (ms, rest)"
  shows "parse_members (Suc k) (nl_indent j @ quote key @ '': '' @ s) = Some ((key, v) # ms, rest)"
proof -
  have "skip_ws (nl_indent j @ quote key @ '': '' @ s) = CHR 0x22 # tl (quote key) @ '': '' @ s"
    by (simp add: skip_ws_nl_indent skip_ws_start quote_def is_ws_def)
  moreover have "parse_chars (tl (quote key) @ '': '' @ s) = Some (key, '': '' @ s)"
    by (rule parse_chars_quote)
  ultimately show ?thesis
    using assms by (simp add: skip_ws_start is_ws_def)
qed

lemma parse_members_last:
  assumes "parse_value k (CHR '' '' # s) = Some (v, nl_indent i @ CHR ''}'' # rest)"
  shows "parse_members (Suc k) (nl_indent j @ quote key @ '': '' @ s) = Some ([(key, v)], rest)"
proof -
  have "skip_ws (nl_indent j @ quote key @ '': '' @ s) = CHR 0x22 # tl (quote key) @ '': '' @ s"
    by (simp add: skip_ws_nl_indent skip_ws_start quote_def is_ws_def)
  moreover have "parse_chars (tl (quote key) @ '': '' @ s) = Some (key, '': '' @ s)"
    by (rule parse_chars_quote)
  ultimately show ?thesis
    using assms by (simp add: skip_ws_start skip_ws_nl_indent is_ws_def)
qed


lemma join_with_Cons:
  "join_with sep (x # xs) = x @ (if xs = [] then [] else sep @ join_with sep xs)"
  by (cases xs) simp_all

lemma stringify_elements_Nil: "stringify_elements i vs = [] \<longleftrightarrow> vs = []"
  by (cases vs) simp_all

lemma stringify_members_Nil: "stringify_members i ms = [] \<longleftrightarrow> ms = []"
  by (cases ms) simp_all

lemma parse_stringify:
  fixes v :: json and vs :: "json list" and ms :: "(string \<times> json) list"
  shows "valid_json v \<Longrightarrow> nesting v \<le> fuel \<Longrightarrow> value_end rest \<Longrightarrow> \<forall>c\<in>set ws. is_ws c \<Longrightarrow>
           parse_value fuel (ws @ stringify i v @ rest) = Some (v, rest)"
    and "vs \<noteq> [] \<Longrightarrow> valid_json_elements vs \<Longrightarrow> nesting_elements vs \<le> fuel \<Longrightarrow>
           parse_elements fuel
             (nl_indent i @ join_with ('','' @ nl_indent i) (stringify_elements i vs)
                @ nl_indent k @ '']'' @ rest) = Some (vs, rest)"
    and "ms \<noteq> [] \<Longrightarrow> valid_json_members ms \<Longrightarrow> nesting_members ms \<le> fuel \<Longrightarrow>
           parse_members fuel
             (nl_indent i @ join_with ('','' @ nl_indent i) (stringify_members i ms)
                @ nl_indent k @ ''}'' @ rest) = Some (ms, rest)"
proof (induction v and vs and ms arbitrary: fuel rest ws i and fuel rest i k and fuel rest i k
    rule: nesting_nesting_elements_nesting_members.induct)
  case 1
  then obtain n where "fuel = Suc n" by (cases fuel) simp_all
  with 1 show ?case
    using parse_value_literal(1) [of ws n rest] by (simp del: parse_value.simps)
next
  case (2 b)
  then obtain n where "fuel = Suc n" by (cases fuel) simp_all
  with 2 show ?case
    using parse_value_literal(2,3) [of ws n rest] by (simp del: parse_value.simps)
next
  case (3 num)
  then obtain n where "fuel = Suc n" by (cases fuel) simp_all
  with 3 show ?case
    using parse_value_number [of num rest ws n] by (simp del: parse_value.simps)
next
  case (4 s)
  then obtain n where "fuel = Suc n" by (cases fuel) simp_all
  with 4 show ?case
    using parse_value_string [of ws n s rest] by (simp del: parse_value.simps)
next
  case (5 vs)
  then obtain n where n: "fuel = Suc n" by (cases fuel) simp_all
  show ?case
  proof (cases vs)
    case Nil
    with n 5(5) show ?thesis
      using parse_value_empty(1) [of ws n rest] by simp
  next
    case (Cons x xs)
    define t where "t = (if xs = [] then [] else ('','' @ nl_indent (Suc i))
                    @ join_with ('','' @ nl_indent (Suc i)) (stringify_elements (Suc i) xs))
               @ nl_indent i @ '']'' @ rest"
    have shape: "join_with ('','' @ nl_indent (Suc i)) (stringify_elements (Suc i) vs)
               @ nl_indent i @ '']'' @ rest = stringify (Suc i) x @ t"
      using Cons by (simp add: t_def join_with_Cons stringify_elements_Nil)
    have "parse_elements n
            (nl_indent (Suc i) @ join_with ('','' @ nl_indent (Suc i)) (stringify_elements (Suc i) vs)
               @ nl_indent i @ '']'' @ rest) = Some (vs, rest)"
      using 5 n Cons by (intro "5.IH") simp_all
    then have "parse_elements n (nl_indent (Suc i) @ stringify (Suc i) x @ t) = Some (vs, rest)"
      by (simp only: shape)
    moreover have "valid_json x"
      using 5(2) Cons by simp
    ultimately have "parse_value (Suc n) (ws @ ''['' @ nl_indent (Suc i) @ stringify (Suc i) x @ t)
        = Some (JArray vs, rest)"
      using 5(5) by (intro parse_value_array)
    moreover have "stringify i (JArray vs) @ rest = ''['' @ nl_indent (Suc i) @ stringify (Suc i) x @ t"
      using Cons shape by simp
    ultimately show ?thesis
      using n by (simp only:)
  qed
next
  case (6 ms)
  then obtain n where n: "fuel = Suc n" by (cases fuel) simp_all
  show ?case
  proof (cases ms)
    case Nil
    with n 6(5) show ?thesis
      using parse_value_empty(2) [of ws n rest] by simp
  next
    case (Cons x xs)
    define t where "t = '': '' @ stringify (Suc i) (snd x)
               @ (if xs = [] then [] else ('','' @ nl_indent (Suc i))
                    @ join_with ('','' @ nl_indent (Suc i)) (stringify_members (Suc i) xs))
               @ nl_indent i @ ''}'' @ rest"
    have shape: "join_with ('','' @ nl_indent (Suc i)) (stringify_members (Suc i) ms)
               @ nl_indent i @ ''}'' @ rest = quote (fst x) @ t"
      using Cons by (simp add: t_def join_with_Cons stringify_members_Nil)
    have "parse_members n
            (nl_indent (Suc i) @ join_with ('','' @ nl_indent (Suc i)) (stringify_members (Suc i) ms)
               @ nl_indent i @ ''}'' @ rest) = Some (ms, rest)"
      using 6 n Cons by (intro "6.IH") simp_all
    then have "parse_members n (nl_indent (Suc i) @ quote (fst x) @ t) = Some (ms, rest)"
      by (simp only: shape)
    then have "parse_value (Suc n) (ws @ ''{'' @ nl_indent (Suc i) @ quote (fst x) @ t)
        = Some (JObject ms, rest)"
      using 6(5) by (intro parse_value_object)
    moreover have "stringify i (JObject ms) @ rest = ''{'' @ nl_indent (Suc i) @ quote (fst x) @ t"
      using Cons shape by simp
    ultimately show ?thesis
      using n by (simp only:)
  qed
next
  case 7
  then show ?case by simp
next
  case (8 v vs)
  then obtain n where n: "fuel = Suc n" by (cases fuel) simp_all
  from 8 n have v: "valid_json v" "nesting v \<le> n" and vs: "valid_json_elements vs" "nesting_elements vs \<le> n"
    by simp_all
  show ?case
  proof (cases "vs = []")
    case True
    have "parse_value n (nl_indent i @ stringify i v @ (nl_indent k @ CHR '']'' # rest))
            = Some (v, nl_indent k @ CHR '']'' # rest)"
      using v by (intro "8.IH"(1) value_end_nl_indent nl_indent_ws)
    then have "parse_elements (Suc n) (nl_indent i @ stringify i v @ (nl_indent k @ CHR '']'' # rest))
            = Some ([v], rest)"
      by (rule parse_elements_last)
    moreover have "nl_indent i @ join_with ('','' @ nl_indent i) (stringify_elements i (v # vs))
                @ nl_indent k @ '']'' @ rest = nl_indent i @ stringify i v @ (nl_indent k @ CHR '']'' # rest)"
      using True by simp
    ultimately show ?thesis
      using True n by (simp only:)
  next
    case False
    let ?t = "nl_indent i @ join_with ('','' @ nl_indent i) (stringify_elements i vs)
                @ nl_indent k @ '']'' @ rest"
    have "parse_value n (nl_indent i @ stringify i v @ (CHR '','' # ?t)) = Some (v, CHR '','' # ?t)"
      using v by (intro "8.IH"(1) value_end_comma nl_indent_ws)
    moreover have "parse_elements n ?t = Some (vs, rest)"
      using vs False by (intro "8.IH"(2))
    ultimately have "parse_elements (Suc n) (nl_indent i @ stringify i v @ (CHR '','' # ?t)) = Some (v # vs, rest)"
      by (rule parse_elements_step)
    moreover have "nl_indent i @ join_with ('','' @ nl_indent i) (stringify_elements i (v # vs))
                @ nl_indent k @ '']'' @ rest = nl_indent i @ stringify i v @ (CHR '','' # ?t)"
      using False by (simp add: join_with_Cons stringify_elements_Nil)
    ultimately show ?thesis
      using n by (simp only:)
  qed
next
  case 9
  then show ?case by simp
next
  case (10 m ms)
  then obtain n where n: "fuel = Suc n" by (cases fuel) simp_all
  from 10 n have v: "valid_json (snd m)" "nesting (snd m) \<le> n"
    and ms: "valid_json_members ms" "nesting_members ms \<le> n"
    by simp_all
  have sp: "\<forall>c\<in>set [CHR '' '']. is_ws c"
    by (simp add: is_ws_def)
  show ?case
  proof (cases "ms = []")
    case True
    have "parse_value n ([CHR '' ''] @ stringify i (snd m) @ (nl_indent k @ CHR ''}'' # rest))
            = Some (snd m, nl_indent k @ CHR ''}'' # rest)"
      using v sp by (intro "10.IH"(1) value_end_nl_indent)
    then have "parse_value n (CHR '' '' # (stringify i (snd m) @ (nl_indent k @ CHR ''}'' # rest)))
            = Some (snd m, nl_indent k @ CHR ''}'' # rest)"
      by simp
    then have "parse_members (Suc n) (nl_indent i @ quote (fst m) @ '': '' @ (stringify i (snd m) @ (nl_indent k @ CHR ''}'' # rest)))
        = Some ([(fst m, snd m)], rest)"
      by (rule parse_members_last)
    moreover have "nl_indent i @ join_with ('','' @ nl_indent i) (stringify_members i (m # ms))
                @ nl_indent k @ ''}'' @ rest
         = nl_indent i @ quote (fst m) @ '': '' @ (stringify i (snd m) @ (nl_indent k @ CHR ''}'' # rest))"
      using True by simp
    ultimately show ?thesis
      using True n by simp
  next
    case False
    let ?t = "nl_indent i @ join_with ('','' @ nl_indent i) (stringify_members i ms)
                @ nl_indent k @ ''}'' @ rest"
    have "parse_value n ([CHR '' ''] @ stringify i (snd m) @ (CHR '','' # ?t)) = Some (snd m, CHR '','' # ?t)"
      using v sp by (intro "10.IH"(1) value_end_comma)
    then have "parse_value n (CHR '' '' # (stringify i (snd m) @ (CHR '','' # ?t))) = Some (snd m, CHR '','' # ?t)"
      by simp
    moreover have "parse_members n ?t = Some (ms, rest)"
      using ms False by (intro "10.IH"(2))
    ultimately have "parse_members (Suc n) (nl_indent i @ quote (fst m) @ '': '' @ (stringify i (snd m) @ (CHR '','' # ?t)))
        = Some ((fst m, snd m) # ms, rest)"
      by (rule parse_members_step)
    moreover have "nl_indent i @ join_with ('','' @ nl_indent i) (stringify_members i (m # ms))
                @ nl_indent k @ ''}'' @ rest
         = nl_indent i @ quote (fst m) @ '': '' @ (stringify i (snd m) @ (CHR '','' # ?t))"
      using False by (simp add: join_with_Cons stringify_members_Nil)
    ultimately show ?thesis
      using n by simp
  qed
qed


lemma number_text_nonempty: "number_text n \<Longrightarrow> n \<noteq> []"
  using number_text_start [of n] by auto

lemma length_join_with_Cons:
  "length (join_with sep (x # xs)) = length x + (if xs = [] then 0 else length sep + length (join_with sep xs))"
  by (simp add: join_with_Cons)

lemma nesting_bound:
  fixes v :: json and vs :: "json list" and ms :: "(string \<times> json) list"
  shows "valid_json v \<Longrightarrow> nesting v \<le> 2 * length (stringify i v)"
    and "vs \<noteq> [] \<Longrightarrow> valid_json_elements vs \<Longrightarrow>
           nesting_elements vs \<le> 2 * length (join_with ('','' @ nl_indent i) (stringify_elements i vs)) + 1"
    and "ms \<noteq> [] \<Longrightarrow> valid_json_members ms \<Longrightarrow>
           nesting_members ms \<le> 2 * length (join_with ('','' @ nl_indent i) (stringify_members i ms)) + 1"
proof (induction v and vs and ms arbitrary: i and i and i
    rule: nesting_nesting_elements_nesting_members.induct)
  case (3 n)
  then have "n \<noteq> []" by (simp add: number_text_nonempty)
  then show ?case by (cases n) simp_all
next
  case (4 s)
  then show ?case by (simp add: quote_def)
next
  case (5 vs)
  show ?case
  proof (cases "vs = []")
    case False
    with 5 have "nesting_elements vs
        \<le> 2 * length (join_with ('','' @ nl_indent (Suc i)) (stringify_elements (Suc i) vs)) + 1"
      by simp
    with False show ?thesis by simp
  qed simp
next
  case (6 ms)
  show ?case
  proof (cases "ms = []")
    case False
    with 6 have "nesting_members ms
        \<le> 2 * length (join_with ('','' @ nl_indent (Suc i)) (stringify_members (Suc i) ms)) + 1"
      by simp
    with False show ?thesis by simp
  qed simp
next
  case (8 v vs)
  then have v: "nesting v \<le> 2 * length (stringify i v)"
    by simp
  show ?case
  proof (cases "vs = []")
    case True
    with v show ?thesis by simp
  next
    case False
    with 8 have "nesting_elements vs
        \<le> 2 * length (join_with ('','' @ nl_indent i) (stringify_elements i vs)) + 1"
      by simp
    with v False show ?thesis
      by (simp add: length_join_with_Cons stringify_elements_Nil)
  qed
next
  case (10 m ms)
  then have v: "nesting (snd m) \<le> 2 * length (stringify i (snd m))"
    by simp
  show ?case
  proof (cases "ms = []")
    case True
    with v show ?thesis by simp
  next
    case False
    with 10 have "nesting_members ms
        \<le> 2 * length (join_with ('','' @ nl_indent i) (stringify_members i ms)) + 1"
      by simp
    with v False show ?thesis
      by (simp add: length_join_with_Cons stringify_members_Nil)
  qed
qed simp_all

lemma JSON_parse_stringify:
  assumes "valid_json j"
  shows "JSON_parse (stringify 0 j) = Some j"
proof -
  have "nesting j \<le> 2 * length (stringify 0 j) + 2"
    using nesting_bound(1) [OF assms, of 0] by simp
  then have "parse_value (2 * length (stringify 0 j) + 2) ([] @ stringify 0 j @ []) = Some (j, [])"
    using assms by (intro parse_stringify(1)) (simp_all add: value_end_def)
  then show ?thesis
    by (simp add: JSON_parse_def skip_ws_def)
qed

lemma to_json_valid:
  fixes v :: jsval and vs :: "jsval list" and ms :: "(string \<times> jsval) list"
  shows "valid_value v \<Longrightarrow> to_json v = Some j \<Longrightarrow> valid_json j"
    and "valid_elements vs \<Longrightarrow> valid_json_elements (to_json_elements vs)"
    and "valid_members ms \<Longrightarrow> valid_json_members (to_json_members ms)"
  by (induction v and vs and ms arbitrary: j rule: to_json_to_json_elements_to_json_members.induct)
    (auto split: option.splits)

lemma JSON_stringify_object:
  "JSON_stringify (VObject ms) = Some (stringify 0 (JObject (to_json_members ms)))"
  by (simp add: JSON_stringify_def)

lemma JSON_parse_stringify_object:
  assumes "valid_members ms" and "JSON_stringify (VObject ms) = Some s"
  shows "JSON_parse s = Some (JObject (to_json_members ms))"
  using assms JSON_parse_stringify [of "JObject (to_json_members ms)"] to_json_valid(3) [of ms]
  by (simp add: JSON_stringify_def)


lemma of_char_digit: "n < 10 \<Longrightarrow> (of_char (char_of (48 + n :: nat)) :: nat) = 48 + n"
  by simp

lemma is_digit_char_of: "n < 10 \<Longrightarrow> is_digit (char_of (48 + n :: nat))"
  by (simp add: is_digit_def less_eq_char_def)

lemma char_of_zero: "n < 10 \<Longrightarrow> char_of (48 + n :: nat) = CHR ''0'' \<longleftrightarrow> n = 0"
proof
  assume "n < 10" and "char_of (48 + n) = CHR ''0''"
  then have "(of_char (char_of (48 + n) :: char) :: nat) = of_char (CHR ''0'')"
    by simp
  with \<open>n < 10\<close> show "n = 0"
    by (simp only: of_char_digit) simp
next
  assume "n = 0"
  moreover have "char_of (of_char (CHR ''0'') :: nat) = CHR ''0''"
    by (rule char_of_char)
  ultimately show "char_of (48 + n) = CHR ''0''"
    by simp
qed

lemma show_nat_digits: "\<forall>c\<in>set (show_nat n). is_digit c"
proof (induction n rule: show_nat.induct)
  case (1 n)
  show ?case
  proof (cases "n < 10")
    case True
    then show ?thesis by (subst show_nat.simps) (simp add: is_digit_char_of)
  next
    case False
    with 1 show ?thesis by (subst show_nat.simps) (simp add: is_digit_char_of)
  qed
qed

lemma show_nat_head: "\<exists>c cs. show_nat n = c # cs \<and> (c = CHR ''0'' \<longrightarrow> n = 0 \<and> cs = [])"
proof (induction n rule: show_nat.induct)
  case (1 n)
  show ?case
  proof (cases "n < 10")
    case True
    then show ?thesis by (subst show_nat.simps) (simp add: char_of_zero)
  next
    case False
    with 1 obtain c cs where "show_nat (n div 10) = c # cs" "c = CHR ''0'' \<longrightarrow> n div 10 = 0 \<and> cs = []"
      by blast
    with False show ?thesis by (subst show_nat.simps) auto
  qed
qed

lemma number_text_show_nat: "number_text (show_nat n)"
proof -
  from show_nat_head [of n] obtain c cs where
    s: "show_nat n = c # cs" "c = CHR ''0'' \<longrightarrow> n = 0 \<and> cs = []"
    by blast
  from show_nat_digits [of n] s have d: "is_digit c" "\<forall>x\<in>set cs. is_digit x"
    by simp_all
  then have c: "c \<noteq> CHR ''-''"
    by (auto simp add: is_digit_def)
  have "take_digits cs = (cs, [])"
    using d(2) by (simp add: take_digits_def)
  then have "parse_int_part (c # cs) = Some (c # cs, [])"
    using s(2) d(1) by (simp add: parse_int_part_def)
  then show ?thesis
    using s(1) c by (simp add: number_text_def parse_number_def parse_frac_def parse_exp_def)
qed

section \<open>Theorems: \<^verbatim>\<open>readNsiImage\<close>\<close>

lemma readUInt32BE_append:
  "off + 4 \<le> length buf \<Longrightarrow> readUInt32BE (buf @ sfx) off = readUInt32BE buf off"
  by (simp add: readUInt32BE_def)

lemma on_data_settle_buffer:
  assumes "pending_inv buf hi"
  shows "on_data (Pending buf hi) chunk = settle_buffer (buf @ chunk)"
proof (cases "length buf < HEADER_FIXED_LEN")
  case True
  with assms have "hi = None" by (simp add: pending_inv_def)
  then show ?thesis
    by (simp add: settle_buffer_def parse_fixed_def parse_header_def Let_def
        split: option.splits)
next
  case False
  with assms have inv: "take 4 buf = MAGIC_BYTES" "readUInt32BE buf 4 = VERSION"
    "readUInt32BE buf 8 \<le> 10 * 1024 * 1024"
    "hi = Some \<lparr>hi_version = readUInt32BE buf 4, headerJsonLen = readUInt32BE buf 8,
                          headerOffset = HEADER_FIXED_LEN\<rparr>"
    by (simp_all add: pending_inv_def)
  from False have len: "12 \<le> length buf" by (simp add: HEADER_FIXED_LEN_def)
  then have same: "take 4 (buf @ chunk) = take 4 buf"
    "readUInt32BE (buf @ chunk) 4 = readUInt32BE buf 4"
    "readUInt32BE (buf @ chunk) 8 = readUInt32BE buf 8"
    by (simp_all add: readUInt32BE_append)
  show ?thesis
    using inv len
    by (simp add: settle_buffer_def parse_fixed_def parse_header_def Let_def same
        HEADER_FIXED_LEN_def split: option.splits)
qed

lemma settle_buffer_pending:
  "settle_buffer b = Pending b' h \<Longrightarrow> b' = b \<and> pending_inv b h"
  by (auto simp: settle_buffer_def pending_inv_def split: if_splits option.splits)

lemma settle_buffer_rejected:
  "settle_buffer b = Rejected e \<Longrightarrow> open_whole inflate (b @ sfx) = Failed e"
  by (auto simp: settle_buffer_def open_whole_def readUInt32BE_append HEADER_FIXED_LEN_def
      split: if_splits option.splits)

lemma settle_buffer_resolved:
  "settle_buffer b = Resolved j v off b' \<Longrightarrow>
     b' = b \<and> off \<le> length b
     \<and> open_whole inflate (b @ sfx) = Opened j v (inflate (drop off b @ sfx))"
  by (auto simp: settle_buffer_def open_whole_def readUInt32BE_append HEADER_FIXED_LEN_def
      split: if_splits option.splits)

lemma concat_inflater_input:
  "concat (inflater_input buffer off rest) = drop off buffer @ concat rest"
  by (simp add: inflater_input_def Let_def)

lemma pending_incomplete:
  "pending_inv buf hi \<Longrightarrow> open_whole inflate buf = Failed IncompleteImage"
  by (auto simp: pending_inv_def open_whole_def split: if_splits)

text \<open>Feeding chunks to a pending read gives what the whole file gives.\<close>

lemma feed_whole:
  "pending_inv buf hi \<Longrightarrow>
     opened_of inflate (feed (Pending buf hi) chunks) = open_whole inflate (buf @ concat chunks)"
proof (induction chunks arbitrary: buf hi)
  case Nil
  then show ?case by (simp add: pending_incomplete)
next
  case (Cons chunk rest)
  have step: "on_data (Pending buf hi) chunk = settle_buffer (buf @ chunk)"
    using Cons.prems by (rule on_data_settle_buffer)
  show ?case
  proof (cases "settle_buffer (buf @ chunk)")
    case (Pending b h)
    then have "b = buf @ chunk" "pending_inv b h"
      using settle_buffer_pending by blast+
    then show ?thesis
      using Cons.IH [of b h] step Pending by simp
  next
    case (Rejected e)
    then show ?thesis
      using settle_buffer_rejected [of "buf @ chunk" e inflate "concat rest"] step by simp
  next
    case (Resolved j v off b)
    then show ?thesis
      using settle_buffer_resolved [of "buf @ chunk" j v off b inflate "concat rest"] step
      by (simp add: concat_inflater_input)
  qed
qed

lemma open_image_whole: "open_image inflate chunks = open_whole inflate (concat chunks)"
  using feed_whole [of "[]" None inflate chunks]
  by (simp add: open_image_def readNsiImage_def pending_inv_def HEADER_FIXED_LEN_def)

text \<open>The promise is settled when the stream has ended.\<close>

lemma feed_settled: "fst (feed (Pending buf hi) chunks) \<noteq> Pending b h"
proof (induction chunks arbitrary: buf hi)
  case Nil
  show ?case by simp
next
  case (Cons chunk rest)
  show ?case
    by (cases "on_data (Pending buf hi) chunk") (simp_all add: Cons.IH)
qed

text \<open>
  A resolved read has consumed some of the chunks; the buffer holds exactly their bytes,
  and the others are still in the stream.
\<close>

lemma feed_position:
  "pending_inv buf hi \<Longrightarrow> feed (Pending buf hi) chunks = (Resolved j v off buffer, rest) \<Longrightarrow>
     \<exists>k. buffer = buf @ concat (take k chunks) \<and> rest = drop k chunks"
proof (induction chunks arbitrary: buf hi)
  case Nil
  then show ?case by simp
next
  case (Cons chunk cs)
  have step: "on_data (Pending buf hi) chunk = settle_buffer (buf @ chunk)"
    using Cons.prems(1) by (rule on_data_settle_buffer)
  show ?case
  proof (cases "settle_buffer (buf @ chunk)")
    case (Pending b h)
    then have b: "b = buf @ chunk" "pending_inv b h"
      using settle_buffer_pending by blast+
    with Cons.prems(2) step Pending
    have "feed (Pending b h) cs = (Resolved j v off buffer, rest)" by simp
    from Cons.IH [OF b(2) this] obtain k
      where "buffer = b @ concat (take k cs)" "rest = drop k cs" by blast
    then have "buffer = buf @ concat (take (Suc k) (chunk # cs)) \<and> rest = drop (Suc k) (chunk # cs)"
      using b(1) by simp
    then show ?thesis by blast
  next
    case (Rejected e)
    with Cons.prems(2) step show ?thesis by simp
  next
    case (Resolved j' v' off' b')
    with Cons.prems(2) step
    have "buffer = buf @ chunk" "rest = cs"
      using settle_buffer_resolved [of "buf @ chunk" j' v' off' b' Inr "[]"] by simp_all
    then have "buffer = buf @ concat (take 1 (chunk # cs)) \<and> rest = drop 1 (chunk # cs)"
      by simp
    then show ?thesis by blast
  qed
qed

text \<open>
  Claim C9 (opening does not depend on how the stream cuts the file into chunks, and the
  payload bytes buffered while the header was parsed reach the decompressor first).  For
  every list of chunks, \<^verbatim>\<open>readNsiImage\<close> gives the rejection, or the header, version and
  decompressed payload, that the concatenation of the chunks determines; and when it
  resolves after some of the chunks, what the inflater is given is first the buffered
  bytes after the header, if any, and then the remaining chunks in order.
\<close>

theorem readNsiImage_chunking:
  "open_image inflate chunks = open_whole inflate (concat chunks)
   \<and> (\<forall>j v off buffer rest.
         readNsiImage chunks = (Resolved j v off buffer, rest) \<longrightarrow>
           (\<exists>k. buffer = concat (take k chunks) \<and> rest = drop k chunks
                \<and> inflater_input buffer off rest
                    = (if off < length buffer then [drop off buffer] else []) @ drop k chunks))"
proof (intro conjI allI impI)
  show "open_image inflate chunks = open_whole inflate (concat chunks)"
    using feed_whole [of "[]" None inflate chunks]
    by (simp add: open_image_def readNsiImage_def pending_inv_def HEADER_FIXED_LEN_def)
next
  fix j v off buffer rest
  assume "readNsiImage chunks = (Resolved j v off buffer, rest)"
  then have "feed (Pending [] None) chunks = (Resolved j v off buffer, rest)"
    by (simp add: readNsiImage_def)
  moreover have "pending_inv [] None"
    by (simp add: pending_inv_def HEADER_FIXED_LEN_def)
  ultimately obtain k where "buffer = [] @ concat (take k chunks)" "rest = drop k chunks"
    using feed_position by blast
  then show "\<exists>k. buffer = concat (take k chunks) \<and> rest = drop k chunks
                \<and> inflater_input buffer off rest
                    = (if off < length buffer then [drop off buffer] else []) @ drop k chunks"
    by (auto simp: inflater_input_def Let_def)
qed

lemma JSON_parse_empty_object: "JSON_parse ''{}'' = Some (JObject [])"
  by code_simp

lemma JSON_parse_digit: "JSON_parse ''7'' = Some (JNumber ''7'')"
  by code_simp

lemma readNsiImage_example_chunks:
  "readNsiImage example_chunks
     = (Resolved (JObject []) 1 14 (concat (take 2 example_chunks)), [''yz''])"
  by (simp add: example_chunks_def readNsiImage_def parse_fixed_def parse_header_def
      HEADER_FIXED_LEN_def MAGIC_BYTES_def VERSION_def readUInt32BE_def Let_def
      JSON_parse_empty_object)

theorem readNsiImage_chunking_witness:
  "readNsiImage example_chunks
     = (Resolved (JObject []) 1 14 (concat (take 2 example_chunks)), [''yz''])
   \<and> open_image Inr example_chunks = open_whole Inr (concat example_chunks)
   \<and> (\<exists>k. concat (take 2 example_chunks) = concat (take k example_chunks)
          \<and> [''yz''] = drop k example_chunks
          \<and> inflater_input (concat (take 2 example_chunks)) 14 [''yz'']
              = (if 14 < length (concat (take 2 example_chunks))
                 then [drop 14 (concat (take 2 example_chunks))] else [])
                @ drop k example_chunks)"
  using readNsiImage_chunking [of Inr example_chunks] readNsiImage_example_chunks
  by simp

lemma readNsiImage_failed:
  assumes "open_image inflate chunks = Failed e"
  shows "fst (readNsiImage chunks) = Rejected e"
proof (cases "readNsiImage chunks")
  case (Pair st rest)
  show ?thesis
  proof (cases st)
    case (Pending b h)
    with Pair have "fst (feed (Pending [] None) chunks) = Pending b h"
      by (simp add: readNsiImage_def)
    then show ?thesis by (simp add: feed_settled)
  next
    case (Rejected e')
    with Pair assms show ?thesis by (simp add: open_image_def)
  next
    case (Resolved j v off b)
    with Pair assms show ?thesis by (simp add: open_image_def)
  qed
qed

text \<open>
  Once twelve good bytes are buffered, the only rejections left are those of the header
  text and of the end of the file.
\<close>

lemma feed_late_errors:
  "pending_inv buf hi \<Longrightarrow> HEADER_FIXED_LEN \<le> length buf \<Longrightarrow>
     fst (feed (Pending buf hi) chunks) = Rejected e \<Longrightarrow>
     e = HeaderJsonError \<or> e = IncompleteImage"
proof (induction chunks arbitrary: buf hi)
  case Nil
  then show ?case by simp
next
  case (Cons chunk cs)
  have step: "on_data (Pending buf hi) chunk = settle_buffer (buf @ chunk)"
    using Cons.prems(1) by (rule on_data_settle_buffer)
  from Cons.prems(1,2) have inv: "take 4 buf = MAGIC_BYTES" "readUInt32BE buf 4 = VERSION"
    "readUInt32BE buf 8 \<le> 10 * 1024 * 1024" "12 \<le> length buf"
    by (simp_all add: pending_inv_def HEADER_FIXED_LEN_def)
  then have same: "take 4 (buf @ chunk) = MAGIC_BYTES"
    "readUInt32BE (buf @ chunk) 4 = VERSION"
    "readUInt32BE (buf @ chunk) 8 \<le> 10 * 1024 * 1024"
    by (simp_all add: readUInt32BE_append)
  show ?case
  proof (cases "settle_buffer (buf @ chunk)")
    case (Pending b h)
    then have b: "b = buf @ chunk" "pending_inv b h"
      using settle_buffer_pending by blast+
    then have "HEADER_FIXED_LEN \<le> length b"
      using Cons.prems(2) by simp
    moreover have "fst (feed (Pending b h) cs) = Rejected e"
      using Cons.prems(3) step Pending by simp
    ultimately show ?thesis
      using Cons.IH [OF b(2)] by blast
  next
    case (Rejected e')
    then have "e' = HeaderJsonError"
      using same by (auto simp add: settle_buffer_def split: if_splits option.splits)
    with Cons.prems(3) step Rejected show ?thesis by simp
  next
    case (Resolved j v off b)
    with Cons.prems(3) step show ?thesis by simp
  qed
qed

text \<open>
  A rejection for the magic, the version or the length comes with the chunk that
  completes the twelve fixed bytes, and the chunks after it stay in the stream.
\<close>

lemma feed_rejected_position:
  "length buf < HEADER_FIXED_LEN \<Longrightarrow> feed (Pending buf None) chunks = (Rejected e, rest) \<Longrightarrow>
     e \<noteq> HeaderJsonError \<Longrightarrow> e \<noteq> IncompleteImage \<Longrightarrow>
     \<exists>k. 0 < k \<and> k \<le> length chunks
       \<and> length (buf @ concat (take (k - 1) chunks)) < HEADER_FIXED_LEN
       \<and> HEADER_FIXED_LEN \<le> length (buf @ concat (take k chunks))
       \<and> rest = drop k chunks"
proof (induction chunks arbitrary: buf)
  case Nil
  then show ?case by simp
next
  case (Cons chunk cs)
  have inv: "pending_inv buf None"
    using Cons.prems(1) by (simp add: pending_inv_def)
  have step: "on_data (Pending buf None) chunk = settle_buffer (buf @ chunk)"
    using inv by (rule on_data_settle_buffer)
  show ?case
  proof (cases "settle_buffer (buf @ chunk)")
    case (Pending b h)
    then have b: "b = buf @ chunk" "pending_inv b h"
      using settle_buffer_pending by blast+
    have run: "feed (Pending b h) cs = (Rejected e, rest)"
      using Cons.prems(2) step Pending by simp
    show ?thesis
    proof (cases "length b < HEADER_FIXED_LEN")
      case True
      with b(2) have "h = None" by (simp add: pending_inv_def)
      with run have "feed (Pending b None) cs = (Rejected e, rest)" by simp
      from Cons.IH [OF True this Cons.prems(3,4)] obtain k where
        k: "0 < k" "k \<le> length cs" "length (b @ concat (take (k - 1) cs)) < HEADER_FIXED_LEN"
          "HEADER_FIXED_LEN \<le> length (b @ concat (take k cs))" "rest = drop k cs"
        by blast
      then obtain k' where k': "k = Suc k'" by (cases k) simp_all
      have "0 < Suc k \<and> Suc k \<le> length (chunk # cs)
          \<and> length (buf @ concat (take (Suc k - 1) (chunk # cs))) < HEADER_FIXED_LEN
          \<and> HEADER_FIXED_LEN \<le> length (buf @ concat (take (Suc k) (chunk # cs)))
          \<and> rest = drop (Suc k) (chunk # cs)"
        using k b(1) by (simp add: k')
      then show ?thesis by blast
    next
      case False
      then have "HEADER_FIXED_LEN \<le> length b" by simp
      from feed_late_errors [OF b(2) this, of cs e] run Cons.prems(3,4)
      show ?thesis by simp
    qed
  next
    case (Rejected e')
    with Cons.prems(2) step have e: "e' = e" "rest = cs" by simp_all
    have "HEADER_FIXED_LEN \<le> length (buf @ chunk)"
      using Rejected by (auto simp add: settle_buffer_def split: if_splits option.splits)
    then have "0 < Suc 0 \<and> Suc 0 \<le> length (chunk # cs)
          \<and> length (buf @ concat (take (Suc 0 - 1) (chunk # cs))) < HEADER_FIXED_LEN
          \<and> HEADER_FIXED_LEN \<le> length (buf @ concat (take (Suc 0) (chunk # cs)))
          \<and> rest = drop (Suc 0) (chunk # cs)"
      using Cons.prems(1) e by simp
    then show ?thesis by blast
  next
    case (Resolved j v off b)
    with Cons.prems(2) step show ?thesis by simp
  qed
qed

text \<open>
  Claim C3, as amended (\<^verbatim>\<open>readNsiImage\<close> rejects a file whose first four bytes are not
  \<^verbatim>\<open>NSI!\<close>, whose version is not 1, or whose declared header length is above 10 MiB; the
  last with the chunk that completes the twelve fixed bytes, no later chunk being read).
  The rejection holds for every file and every way of cutting it into chunks.  For a file
  of at least twelve bytes with the right magic and version and an oversized length,
  \<open>k\<close> is the number of chunks read: before the last of them fewer than twelve bytes were
  buffered, with it at least twelve, the promise is rejected with the length error, and
  the chunks after it are still in the stream.
\<close>

theorem readNsiImage_rejects:
  "(take 4 (concat chunks) \<noteq> MAGIC_BYTES \<or> readUInt32BE (concat chunks) 4 \<noteq> VERSION
      \<or> 10 * 1024 * 1024 < readUInt32BE (concat chunks) 8
     \<longrightarrow> (\<exists>err. fst (readNsiImage chunks) = Rejected err))
   \<and> (HEADER_FIXED_LEN \<le> length (concat chunks) \<and> take 4 (concat chunks) = MAGIC_BYTES
        \<and> readUInt32BE (concat chunks) 4 = VERSION
        \<and> 10 * 1024 * 1024 < readUInt32BE (concat chunks) 8
     \<longrightarrow> (\<exists>k. 0 < k \<and> k \<le> length chunks
            \<and> length (concat (take (k - 1) chunks)) < HEADER_FIXED_LEN
            \<and> HEADER_FIXED_LEN \<le> length (concat (take k chunks))
            \<and> readNsiImage chunks
                = (Rejected (LargeHeaderLength (readUInt32BE (concat chunks) 8)),
                   drop k chunks)))"
proof (intro conjI impI)
  assume bad: "take 4 (concat chunks) \<noteq> MAGIC_BYTES \<or> readUInt32BE (concat chunks) 4 \<noteq> VERSION
      \<or> 10 * 1024 * 1024 < readUInt32BE (concat chunks) 8"
  have "open_image Inr chunks = open_whole Inr (concat chunks)"
    by (rule open_image_whole)
  moreover from bad have "\<exists>err. open_whole Inr (concat chunks) = Failed err"
    by (auto simp: open_whole_def)
  ultimately obtain err where "open_image Inr chunks = Failed err" by auto
  then have "fst (readNsiImage chunks) = Rejected err" by (rule readNsiImage_failed)
  then show "\<exists>err. fst (readNsiImage chunks) = Rejected err" ..
next
  assume big: "HEADER_FIXED_LEN \<le> length (concat chunks) \<and> take 4 (concat chunks) = MAGIC_BYTES
        \<and> readUInt32BE (concat chunks) 4 = VERSION
        \<and> 10 * 1024 * 1024 < readUInt32BE (concat chunks) 8"
  let ?e = "LargeHeaderLength (readUInt32BE (concat chunks) 8)"
  have "open_image Inr chunks = open_whole Inr (concat chunks)"
    by (rule open_image_whole)
  also from big have "\<dots> = Failed ?e"
    by (simp add: open_whole_def)
  finally have rejected: "fst (readNsiImage chunks) = Rejected ?e"
    by (rule readNsiImage_failed)
  then have run: "feed (Pending [] None) chunks = (Rejected ?e, snd (readNsiImage chunks))"
    by (simp add: readNsiImage_def prod_eq_iff)
  have len: "length ([] :: bytes) < HEADER_FIXED_LEN"
    by (simp add: HEADER_FIXED_LEN_def)
  have ne: "?e \<noteq> HeaderJsonError" "?e \<noteq> IncompleteImage"
    by simp_all
  have "\<exists>k. 0 < k \<and> k \<le> length chunks
       \<and> length ([] @ concat (take (k - 1) chunks)) < HEADER_FIXED_LEN
       \<and> HEADER_FIXED_LEN \<le> length ([] @ concat (take k chunks))
       \<and> snd (readNsiImage chunks) = drop k chunks"
    using len run ne by (rule feed_rejected_position)
  then obtain k where
    "0 < k" "k \<le> length chunks" "length (concat (take (k - 1) chunks)) < HEADER_FIXED_LEN"
    "HEADER_FIXED_LEN \<le> length (concat (take k chunks))" "snd (readNsiImage chunks) = drop k chunks"
    unfolding append_Nil by blast
  moreover from this(5) rejected have "readNsiImage chunks = (Rejected ?e, drop k chunks)"
    by (simp add: prod_eq_iff)
  ultimately show "\<exists>k. 0 < k \<and> k \<le> length chunks
            \<and> length (concat (take (k - 1) chunks)) < HEADER_FIXED_LEN
            \<and> HEADER_FIXED_LEN \<le> length (concat (take k chunks))
            \<and> readNsiImage chunks = (Rejected ?e, drop k chunks)"
    by blast
qed

lemma readNsiImage_oversized_chunks:
  "readNsiImage oversized_chunks = (Rejected (LargeHeaderLength 4294967295), [''more''])"
  by (simp add: oversized_chunks_def readNsiImage_def parse_fixed_def parse_header_def
      HEADER_FIXED_LEN_def MAGIC_BYTES_def VERSION_def readUInt32BE_def Let_def)

lemma readNsiImage_oversized_one_chunk:
  "readNsiImage oversized_one_chunk = (Rejected (LargeHeaderLength 4294967295), [])"
  by (simp add: oversized_one_chunk_def oversized_header_image_def readNsiImage_def
      parse_fixed_def parse_header_def
      HEADER_FIXED_LEN_def MAGIC_BYTES_def VERSION_def readUInt32BE_def Let_def)

theorem readNsiImage_rejects_witness:
  "take 4 (concat [zero_file]) \<noteq> MAGIC_BYTES
   \<and> (\<exists>err. fst (readNsiImage [zero_file]) = Rejected err)
   \<and> HEADER_FIXED_LEN \<le> length (concat oversized_chunks)
   \<and> take 4 (concat oversized_chunks) = MAGIC_BYTES
   \<and> readUInt32BE (concat oversized_chunks) 4 = VERSION
   \<and> 10 * 1024 * 1024 < readUInt32BE (concat oversized_chunks) 8
   \<and> (\<exists>k. 0 < k \<and> k \<le> length oversized_chunks
         \<and> length (concat (take (k - 1) oversized_chunks)) < HEADER_FIXED_LEN
         \<and> HEADER_FIXED_LEN \<le> length (concat (take k oversized_chunks))
         \<and> readNsiImage oversized_chunks
             = (Rejected (LargeHeaderLength (readUInt32BE (concat oversized_chunks) 8)),
                drop k oversized_chunks))
   \<and> readNsiImage oversized_chunks = (Rejected (LargeHeaderLength 4294967295), [''more''])"
proof -
  have z: "take 4 (concat [zero_file]) \<noteq> MAGIC_BYTES"
    by (simp add: zero_file_def MAGIC_BYTES_def eval_nat_numeral)
  have o: "HEADER_FIXED_LEN \<le> length (concat oversized_chunks)"
    "take 4 (concat oversized_chunks) = MAGIC_BYTES"
    "readUInt32BE (concat oversized_chunks) 4 = VERSION"
    "10 * 1024 * 1024 < readUInt32BE (concat oversized_chunks) 8"
    by (simp_all add: oversized_chunks_def HEADER_FIXED_LEN_def MAGIC_BYTES_def
        VERSION_def readUInt32BE_def)
  note t1 = readNsiImage_rejects [of "[zero_file]", THEN conjunct1, THEN mp, OF disjI1, OF z]
  note t2 = readNsiImage_rejects [of oversized_chunks, THEN conjunct2, THEN mp,
      OF conjI [OF o(1) conjI [OF o(2) conjI [OF o(3) o(4)]]]]
  from z t1 o t2 readNsiImage_oversized_chunks show ?thesis
    by (intro conjI)
qed

text \<open>
  Claim C3 as stated also promises a rejection when the declared header length is below 2,
  and a rejection of an oversized length before any header byte is read.  The file
  \<open>one_byte_header_image\<close> declares a header of one byte, the JSON text \<^verbatim>\<open>7\<close>, and
  \<^verbatim>\<open>readNsiImage\<close> resolves with the header 7.  When a file with an oversized length comes
  as one chunk of fourteen bytes, the chunk read holds two bytes of the header, and the
  \<^verbatim>\<open>'data'\<close> handler has appended them to the buffer when it checks the length.
\<close>

theorem one_byte_header_accepted:
  "readUInt32BE one_byte_header_image 8 < 2
   \<and> readNsiImage [one_byte_header_image]
       = (Resolved (JNumber ''7'') 1 13 one_byte_header_image, [])
   \<and> drop HEADER_FIXED_LEN (concat (take 1 oversized_one_chunk)) = ''{}''
   \<and> on_data (Pending [] None) (oversized_header_image @ ''{}'')
       = Rejected (LargeHeaderLength 4294967295)
   \<and> readNsiImage oversized_one_chunk = (Rejected (LargeHeaderLength 4294967295), drop 1 oversized_one_chunk)"
proof -
  have "readUInt32BE one_byte_header_image 8 < 2
   \<and> readNsiImage [one_byte_header_image]
       = (Resolved (JNumber ''7'') 1 13 one_byte_header_image, [])"
    by (simp add: one_byte_header_image_def readNsiImage_def parse_fixed_def parse_header_def
      HEADER_FIXED_LEN_def MAGIC_BYTES_def VERSION_def readUInt32BE_def Let_def
      JSON_parse_digit)
  moreover have "drop HEADER_FIXED_LEN (concat (take 1 oversized_one_chunk)) = ''{}''"
    by (simp add: oversized_one_chunk_def oversized_header_image_def HEADER_FIXED_LEN_def)
  moreover have "on_data (Pending [] None) (oversized_header_image @ ''{}'')
       = Rejected (LargeHeaderLength 4294967295)"
    by (simp add: oversized_header_image_def parse_fixed_def
      HEADER_FIXED_LEN_def MAGIC_BYTES_def VERSION_def readUInt32BE_def Let_def)
  moreover have "readNsiImage oversized_one_chunk
      = (Rejected (LargeHeaderLength 4294967295), drop 1 oversized_one_chunk)"
    using readNsiImage_oversized_one_chunk by (simp add: oversized_one_chunk_def)
  ultimately show ?thesis by (intro conjI) simp_all
qed
section \<open>Theorems: the order of the launcher's stages\<close>

lemma main_success_calls:
  assumes "main oc side status args environ = (calls, Exec p a ev)"
  shows "calls = success_calls oc args"
  using assms
  by (cases side)
     (auto simp: main_def child_main_def setup_user_namespace_mappings_def setup_filesystem_def
       setup_cgroups_def success_calls_def Let_def split: if_splits prod.splits)

lemma stages_success_calls: "stages (success_calls oc args) = stage_order"
  by (simp add: stages_def success_calls_def stage_order_def)

lemma precedes_success_calls:
  "precedes Mount_root_private Mount_bind_rootfs (success_calls oc args)"
  "precedes Open_setgroups Write_gid_map (success_calls oc args)"
  "oc Open_setgroups = None \<Longrightarrow>
     precedes Write_setgroups_deny Write_gid_map (success_calls oc args)"
  by (simp_all add: precedes_def success_calls_def)

lemma main_stage_prefix:
  assumes "main oc side status args environ = (calls, e)"
  shows "prefix (stages calls) stage_order"
  using assms
  by (cases side)
     (auto simp: main_def child_main_def setup_user_namespace_mappings_def setup_filesystem_def
       setup_cgroups_def stages_def stage_order_def Let_def split: if_splits prod.splits)

text \<open>
  Claim C5 (the stages of a launcher run come in the order user namespace, other
  namespaces, fork, cgroup, pivot, mounts, working directory, exec, none reordered and,
  on the success path, none skipped).  For every answer of the kernel and on either side
  of the fork, the stages a process of the sandbox goes through are an initial part of
  that order.  When the process reaches the program, its calls are exactly
  \<open>success_calls\<close>, all eight stages in order; there the setgroups file is opened, and
  \<^verbatim>\<open>deny\<close> written to it if it opened, before the gid map is written, and the mounts are
  made private before the root is bind-mounted.
\<close>

theorem launcher_stage_order:
  "main oc side status args environ = (calls, e) \<Longrightarrow>
     prefix (stages calls) stage_order
     \<and> (\<forall>p a ev. e = Exec p a ev \<longrightarrow>
           calls = success_calls oc args \<and> stages calls = stage_order
           \<and> precedes Open_setgroups Write_gid_map calls
           \<and> (oc Open_setgroups = None \<longrightarrow> precedes Write_setgroups_deny Write_gid_map calls)
           \<and> precedes Mount_root_private Mount_bind_rootfs calls)"
proof (intro conjI allI impI)
  assume run: "main oc side status args environ = (calls, e)"
  then show "prefix (stages calls) stage_order" by (rule main_stage_prefix)
  fix p a ev
  assume "e = Exec p a ev"
  with run have calls: "calls = success_calls oc args"
    using main_success_calls by blast
  then show "calls = success_calls oc args" .
  from calls show "stages calls = stage_order" by (simp add: stages_success_calls)
  from calls show "precedes Open_setgroups Write_gid_map calls"
    by (simp add: precedes_success_calls)
  from calls show "precedes Mount_root_private Mount_bind_rootfs calls"
    by (simp add: precedes_success_calls)
  assume "oc Open_setgroups = None"
  with calls show "precedes Write_setgroups_deny Write_gid_map calls"
    by (simp add: precedes_success_calls)
qed

lemma example_build_envp:
  "build_envp example_args ''1a2b3c4d''
     = [Intact ''NODE_ENV=production'', Intact DEFAULT_PATH, Intact ''NEOSHELL_CONTAINER=true'',
        Intact ''HOSTNAME=1a2b3c4d'']"
  by (simp add: build_envp_def env_strings_def example_args_def add_env_def push_back_def
      c_str_back_def deref_def empty_vector_def DEFAULT_PATH_def Let_def)

lemma main_example:
  "main all_succeed In_child 0 example_args []
     = (success_calls all_succeed example_args,
        Exec ''/bin/sh'' [''/bin/sh'', ''-c'', ''true'']
          [Intact ''NODE_ENV=production'', Intact DEFAULT_PATH,
           Intact ''NEOSHELL_CONTAINER=true'', Intact ''HOSTNAME=1a2b3c4d''])"
proof -
  have "take 63 (cgroup_id example_args) = ''1a2b3c4d''"
    by (simp add: example_args_def)
  then show ?thesis
    using example_build_envp
    by (simp add: main_def child_main_def setup_user_namespace_mappings_def
        setup_filesystem_def setup_cgroups_def success_calls_def all_succeed_def Let_def)
      (simp add: example_args_def)
qed

theorem launcher_stage_order_witness:
  "main all_succeed In_child 0 example_args []
     = (success_calls all_succeed example_args,
        Exec ''/bin/sh'' [''/bin/sh'', ''-c'', ''true'']
          [Intact ''NODE_ENV=production'', Intact DEFAULT_PATH,
           Intact ''NEOSHELL_CONTAINER=true'', Intact ''HOSTNAME=1a2b3c4d''])
   \<and> all_succeed Open_setgroups = None
   \<and> stages (success_calls all_succeed example_args) = stage_order
   \<and> precedes Write_setgroups_deny Write_gid_map (success_calls all_succeed example_args)
   \<and> precedes Mount_root_private Mount_bind_rootfs (success_calls all_succeed example_args)"
  using launcher_stage_order [OF main_example] main_example
  by (simp add: all_succeed_def)
section \<open>Theorems: writing an image\<close>

lemma obj_set_lookup_same: "map_of (obj_set k v ps) k = Some v"
  by (induction ps) auto

lemma obj_set_lookup_other: "k' \<noteq> k \<Longrightarrow> map_of (obj_set k v ps) k' = map_of ps k'"
  by (induction ps) auto

lemma obj_set_filter:
  "k \<in> S \<Longrightarrow> filter (\<lambda>p. fst p \<notin> S) (obj_set k v ps) = filter (\<lambda>p. fst p \<notin> S) ps"
  by (induction ps) auto

lemma be32_digits:
  assumes "v < 2 ^ 32"
  shows "((v div 16777216 * 256 + v div 65536 mod 256) * 256 + v div 256 mod 256) * 256
           + v mod 256 = (v :: nat)"
proof -
  define a where "a = v div 256"
  define b where "b = a div 256"
  define c where "c = b div 256"
  have e1: "v div 65536 = b" by (simp add: a_def b_def div_mult2_eq [symmetric])
  have e2: "v div 16777216 = c" by (simp add: a_def b_def c_def div_mult2_eq [symmetric])
  have "c * 256 + b mod 256 = b" by (simp add: c_def)
  moreover have "b * 256 + a mod 256 = a" by (simp add: b_def)
  moreover have "a * 256 + v mod 256 = v" by (simp add: a_def)
  ultimately show ?thesis by (simp add: e1 e2 flip: a_def)
qed

lemma top_byte: "v < 2 ^ 32 \<Longrightarrow> v div 16777216 < (256 :: nat)"
  by (simp add: less_mult_imp_div_less)

text \<open>What \<^verbatim>\<open>writeUInt32BE\<close> wrote, \<^verbatim>\<open>readUInt32BE\<close> reads back, wherever the bytes stand.\<close>

lemma read_write_UInt32BE:
  assumes "writeUInt32BE v = Some b"
  shows "readUInt32BE (pre @ b @ sfx) (length pre) = v"
proof -
  from assms have v: "v < 2 ^ 32"
    and b: "b = [char_of (v div 16777216), char_of (v div 65536), char_of (v div 256), char_of v]"
    by (auto simp: writeUInt32BE_def split: if_splits)
  have "readUInt32BE (pre @ b @ sfx) (length pre)
      = ((v div 16777216 mod 256 * 256 + v div 65536 mod 256) * 256 + v div 256 mod 256) * 256
           + v mod 256"
    by (simp add: b readUInt32BE_def)
  also have "\<dots> = ((v div 16777216 * 256 + v div 65536 mod 256) * 256 + v div 256 mod 256) * 256
           + v mod 256"
    using top_byte [OF v] by (simp only: mod_less)
  also have "\<dots> = v" using v by (rule be32_digits)
  finally show ?thesis .
qed

lemma writeUInt32BE_length: "writeUInt32BE v = Some b \<Longrightarrow> length b = 4"
  by (auto simp: writeUInt32BE_def split: if_splits)

lemma image_bytes_Some: "length h < 2 ^ 32 \<Longrightarrow> \<exists>f. image_bytes h c = Some f"
  by (simp add: image_bytes_def writeUInt32BE_def VERSION_def)

text \<open>The layout of the bytes written, and what the two length fields read back as.\<close>

lemma image_bytes_layout:
  assumes "image_bytes h c = Some f"
  shows "\<exists>vb lb. f = MAGIC_BYTES @ vb @ lb @ h @ c \<and> length vb = 4 \<and> length lb = 4
           \<and> readUInt32BE f 4 = VERSION \<and> readUInt32BE f 8 = length h"
proof -
  from assms obtain vb lb where vb: "writeUInt32BE VERSION = Some vb"
    and lb: "writeUInt32BE (length h) = Some lb"
    and f: "f = MAGIC_BYTES @ vb @ lb @ h @ c"
    by (auto simp: image_bytes_def split: option.splits)
  have l: "length vb = 4" "length lb = 4" "length MAGIC_BYTES = 4"
    using vb lb by (simp_all add: writeUInt32BE_length MAGIC_BYTES_def)
  have "readUInt32BE (MAGIC_BYTES @ vb @ (lb @ h @ c)) (length MAGIC_BYTES) = VERSION"
    using vb by (rule read_write_UInt32BE)
  moreover have "readUInt32BE ((MAGIC_BYTES @ vb) @ lb @ (h @ c)) (length (MAGIC_BYTES @ vb))
      = length h"
    using lb by (rule read_write_UInt32BE)
  ultimately show ?thesis using l f by auto
qed

lemma header_on_disk_image:
  assumes "image_bytes h c = Some f"
  shows "header_on_disk f = h"
proof -
  from image_bytes_layout [OF assms] obtain vb lb where
    "f = MAGIC_BYTES @ vb @ lb @ h @ c" "length vb = 4" "length lb = 4"
    "readUInt32BE f 8 = length h"
    by blast
  then show ?thesis
    by (simp add: header_on_disk_def HEADER_FIXED_LEN_def MAGIC_BYTES_def)
qed

lemma other_fields_obj_set:
  "k \<in> {''hash'', ''created'', ''size''} \<Longrightarrow> other_fields (obj_set k v h) = other_fields h"
  unfolding other_fields_def by (rule obj_set_filter)

lemma other_fields_final_header: "other_fields (final_header pf raw zp h) = other_fields h"
  by (simp add: final_header_def other_fields_obj_set)

lemma final_header_lookup:
  "map_of (final_header pf raw zp h) ''hash'' = Some (VString (sha256_hex pf raw))"
  "map_of (final_header pf raw zp h) ''created'' = Some (VString (now_iso pf))"
  "map_of (final_header pf raw zp h) ''size'' = Some (VNumber (show_nat (length zp)))"
  by (simp_all add: final_header_def obj_set_lookup_same obj_set_lookup_other)

lemma JSON_stringify_header: "JSON_stringify (VObject h) = Some (header_text h)"
  by (simp add: JSON_stringify_def header_text_def)

lemma valid_members_obj_set:
  "valid_value v \<Longrightarrow> valid_members h \<Longrightarrow> valid_members (obj_set k v h)"
  by (induction h) simp_all

lemma valid_members_final_header:
  "valid_members h \<Longrightarrow> valid_members (final_header pf raw zp h)"
  by (simp add: final_header_def valid_members_obj_set number_text_show_nat)

text \<open>The header text parses to the JSON value of the header object.\<close>

lemma JSON_parse_header_text:
  "valid_members h \<Longrightarrow> JSON_parse (header_text h) = Some (JObject (to_json_members h))"
  using JSON_parse_stringify [of "JObject (to_json_members h)"] to_json_valid(3) [of h]
  by (simp add: header_text_def)

lemma other_fields_to_json_members:
  "other_fields (to_json_members h) = to_json_members (other_fields h)"
  by (induction h) (auto simp add: other_fields_def split: option.splits)

lemma to_json_of_json:
  fixes j :: json and js :: "json list" and ms :: "(string \<times> json) list"
  shows "to_json (of_json j) = Some j"
    and "to_json_elements (of_json_elements js) = js"
    and "to_json_members (of_json_members ms) = ms"
  by (induction j and js and ms rule: of_json_of_json_elements_of_json_members.induct) simp_all

lemma to_json_members_mem:
  "(k, v) \<in> set h \<Longrightarrow> to_json v = Some j \<Longrightarrow> (k, j) \<in> set (to_json_members h)"
  by (induction h) (auto split: option.splits)

lemma createNsiImage_other_fields:
  assumes "createNsiImage pf imagePath sourceDir w = (w', r)"
  shows "other_fields (headerJson w') = other_fields (headerJson w)"
  using assms
  by (auto simp: createNsiImage_def writeFile_def Let_def other_fields_obj_set
      split: sum.splits option.splits write_fault.splits)

lemma createNsiImage_other_paths:
  assumes "createNsiImage pf imagePath sourceDir w = (w', r)"
  shows "p \<noteq> imagePath \<Longrightarrow> files w' p = files w p" and "dirs w' = dirs w"
  using assms
  by (auto simp: createNsiImage_def writeFile_def Let_def
      split: sum.splits option.splits write_fault.splits)

text \<open>Once the tar stream and the compression have succeeded, the three ways the write ends.\<close>

lemma createNsiImage_writes:
  assumes "tar_pack pf (dirs w sourceDir) = Inr raw" "deflate pf raw = Inr zp"
    and "image_bytes (header_text (final_header pf raw zp (headerJson w))) zp = Some f"
  shows "createNsiImage pf imagePath sourceDir w =
     (case write_fault pf of
        WriteOk \<Rightarrow> (w\<lparr>headerJson := final_header pf raw zp (headerJson w),
                       files := (files w)(imagePath \<mapsto> f)\<rparr>, Inr imagePath)
      | OpenFailed msg \<Rightarrow> (w\<lparr>headerJson := final_header pf raw zp (headerJson w)\<rparr>,
                            Inl (WriteImageFailed msg))
      | WriteFailedAfter n msg \<Rightarrow>
          (w\<lparr>headerJson := final_header pf raw zp (headerJson w),
             files := (files w)(imagePath \<mapsto> take n f)\<rparr>, Inl (WriteImageFailed msg)))"
  using assms
  by (auto simp: createNsiImage_def writeFile_def Let_def final_header_def JSON_stringify_header
      split: write_fault.splits)

lemma createNsiImage_success:
  assumes "createNsiImage pf imagePath sourceDir w = (w', Inr path)"
  shows "\<exists>raw zp f. tar_pack pf (dirs w sourceDir) = Inr raw \<and> deflate pf raw = Inr zp
     \<and> write_fault pf = WriteOk \<and> path = imagePath
     \<and> headerJson w' = final_header pf raw zp (headerJson w)
     \<and> image_bytes (header_text (headerJson w')) zp = Some f
     \<and> files w' = (files w)(imagePath \<mapsto> f)"
  using assms
  by (auto simp: createNsiImage_def writeFile_def Let_def final_header_def JSON_stringify_header
      split: sum.splits option.splits write_fault.splits)

lemma char_of_byte: "char_of (of_char c :: nat) = c"
  by (rule char_of_char)

lemma list_pack_single:
  "length n < 256 \<Longrightarrow> length c < 256 \<Longrightarrow>
     list_pack (Some [(n, c)]) = Inr (char_of (length n) # char_of (length c) # n @ c)"
  by (simp add: list_pack_def)

lemma example_pack: "list_pack (Some example_dir) = Inr example_raw"
proof -
  have e: "(of_char (CHR 0x09) :: nat) = 9" "(of_char (CHR 0x03) :: nat) = 3"
    by simp_all
  have c: "char_of (9 :: nat) = CHR 0x09" "char_of (3 :: nat) = CHR 0x03"
    using char_of_byte [of "CHR 0x09"] char_of_byte [of "CHR 0x03"] by (simp_all only: e)
  have l: "length ''hello.txt'' = 9" "length (''hi'' @ [CHR 0x0A]) = 3"
    by simp_all
  have "list_pack (Some [(''hello.txt'', ''hi'' @ [CHR 0x0A])])
      = Inr (char_of (length ''hello.txt'') # char_of (length (''hi'' @ [CHR 0x0A]))
               # ''hello.txt'' @ ''hi'' @ [CHR 0x0A])"
    by (rule list_pack_single) simp_all
  then have "list_pack (Some [(''hello.txt'', ''hi'' @ [CHR 0x0A])])
      = Inr (CHR 0x09 # CHR 0x03 # ''hello.txt'' @ ''hi'' @ [CHR 0x0A])"
    by (simp only: l c)
  then show ?thesis
    by (simp add: example_dir_def example_raw_def)
qed

lemma example_platform_simps:
  "tar_pack example_platform = list_pack" "sha256_hex example_platform = length_digest"
  "now_iso example_platform = ''2026-11-02T00:00:00.000Z''"
  "deflate example_platform = store_deflate" "write_fault example_platform = WriteOk"
  by (simp_all add: example_platform_def)

lemma example_world_simps:
  "files example_world = Map.empty" "dirs example_world ''/src/app'' = Some example_dir"
  "headerJson example_world = example_header"
  by (simp_all add: example_world_def)

lemma example_deflate: "store_deflate example_raw = Inr example_zp"
  by (simp add: store_deflate_def example_zp_def)

lemma valid_example_header: "valid_members example_header"
  by (simp add: example_header_def)

lemma example_header_length:
  "length (header_text (final_header example_platform example_raw example_zp example_header))
     < 2 ^ 32"
  by (simp add: header_text_def example_header_def example_platform_def quote_def
      quote_char_def nl_indent_def final_header_def example_zp_def example_raw_def
      length_digest_def show_nat.simps)



lemma example_image_bytes:
  "image_bytes (header_text (final_header example_platform example_raw example_zp example_header))
       example_zp
     = Some (the (image_bytes (header_text (final_header example_platform example_raw example_zp
          example_header)) example_zp))"
  using image_bytes_Some [OF example_header_length, of example_zp] by auto

lemma createNsiImage_example:
  "createNsiImage example_platform ''/out/h.nsi'' ''/src/app'' example_world
     = (example_world
          \<lparr>headerJson := final_header example_platform example_raw example_zp example_header,
           files := [''/out/h.nsi'' \<mapsto>
             the (image_bytes (header_text (final_header example_platform example_raw example_zp
               example_header)) example_zp)]\<rparr>,
        Inr ''/out/h.nsi'')"
  using createNsiImage_writes [of example_platform example_world "''/src/app''" example_raw
      example_zp _ "''/out/h.nsi''"] example_image_bytes
  by (simp add: example_platform_simps example_world_simps example_pack example_deflate)

text \<open>
  Claim C10, as amended (\<^verbatim>\<open>createNsiImage\<close> assigns \<^verbatim>\<open>hash\<close>, \<^verbatim>\<open>created\<close> and \<^verbatim>\<open>size\<close> on
  the caller's header object, and every other field is in the written header as
  \<^verbatim>\<open>JSON.stringify\<close> serialises it).  However the call ends, the caller's object keeps all
  its other properties, values and order.  When the call resolves, the object has the
  digest of the raw tar payload as \<^verbatim>\<open>hash\<close>, the time as \<^verbatim>\<open>created\<close> and the length of the
  compressed payload as \<^verbatim>\<open>size\<close>; the header bytes of the file written parse to the JSON
  value of that object, whose members besides the three are those of the template's other
  fields, in order, each serialised by \<open>to_json\<close>; so a field whose value is built from
  \<^verbatim>\<open>null\<close>, booleans, finite numbers, strings, arrays and plain objects alone is there with
  that very value.
\<close>

theorem createNsiImage_mutates_header:
  "createNsiImage pf imagePath sourceDir w = (w', r) \<Longrightarrow>
     other_fields (headerJson w') = other_fields (headerJson w)
     \<and> (\<forall>path. r = Inr path \<longrightarrow> valid_members (headerJson w) \<longrightarrow>
          (\<exists>raw zp f.
             tar_pack pf (dirs w sourceDir) = Inr raw \<and> deflate pf raw = Inr zp
             \<and> map_of (headerJson w') ''hash'' = Some (VString (sha256_hex pf raw))
             \<and> map_of (headerJson w') ''created'' = Some (VString (now_iso pf))
             \<and> map_of (headerJson w') ''size'' = Some (VNumber (show_nat (length zp)))
             \<and> files w' imagePath = Some f
             \<and> JSON_parse (header_on_disk f) = Some (JObject (to_json_members (headerJson w')))
             \<and> other_fields (to_json_members (headerJson w'))
                 = to_json_members (other_fields (headerJson w))
             \<and> (\<forall>k j. (k, of_json j) \<in> set (other_fields (headerJson w))
                   \<longrightarrow> (k, j) \<in> set (to_json_members (headerJson w')))))"
proof (intro conjI allI impI)
  assume run: "createNsiImage pf imagePath sourceDir w = (w', r)"
  then show other: "other_fields (headerJson w') = other_fields (headerJson w)"
    by (rule createNsiImage_other_fields)
  fix path
  assume "r = Inr path" and valid: "valid_members (headerJson w)"
  with run obtain raw zp f where ok: "tar_pack pf (dirs w sourceDir) = Inr raw"
    "deflate pf raw = Inr zp"
    "headerJson w' = final_header pf raw zp (headerJson w)"
    "image_bytes (header_text (headerJson w')) zp = Some f"
    "files w' = (files w)(imagePath \<mapsto> f)"
    using createNsiImage_success by blast
  have v': "valid_members (headerJson w')"
    using valid by (simp add: ok(3) valid_members_final_header)
  have parse: "JSON_parse (header_on_disk f) = Some (JObject (to_json_members (headerJson w')))"
    using header_on_disk_image [OF ok(4)] JSON_parse_header_text [OF v'] by simp
  have others: "other_fields (to_json_members (headerJson w'))
      = to_json_members (other_fields (headerJson w))"
    by (simp add: other_fields_to_json_members other)
  have plain: "(k, j) \<in> set (to_json_members (headerJson w'))"
    if "(k, of_json j) \<in> set (other_fields (headerJson w))" for k j
  proof -
    from that have "(k, of_json j) \<in> set (other_fields (headerJson w'))"
      by (simp add: other)
    then have "(k, of_json j) \<in> set (headerJson w')"
      by (simp add: other_fields_def)
    then show ?thesis
      by (rule to_json_members_mem) (rule to_json_of_json(1))
  qed
  from ok parse others plain
  show "\<exists>raw zp f.
             tar_pack pf (dirs w sourceDir) = Inr raw \<and> deflate pf raw = Inr zp
             \<and> map_of (headerJson w') ''hash'' = Some (VString (sha256_hex pf raw))
             \<and> map_of (headerJson w') ''created'' = Some (VString (now_iso pf))
             \<and> map_of (headerJson w') ''size'' = Some (VNumber (show_nat (length zp)))
             \<and> files w' imagePath = Some f
             \<and> JSON_parse (header_on_disk f) = Some (JObject (to_json_members (headerJson w')))
             \<and> other_fields (to_json_members (headerJson w'))
                 = to_json_members (other_fields (headerJson w))
             \<and> (\<forall>k j. (k, of_json j) \<in> set (other_fields (headerJson w))
                   \<longrightarrow> (k, j) \<in> set (to_json_members (headerJson w')))"
    by (auto simp: final_header_lookup)
qed

theorem createNsiImage_mutates_header_witness:
  "createNsiImage example_platform ''/out/h.nsi'' ''/src/app'' example_world
     = (example_world
          \<lparr>headerJson := final_header example_platform example_raw example_zp example_header,
           files := [''/out/h.nsi'' \<mapsto>
             the (image_bytes (header_text (final_header example_platform example_raw example_zp
               example_header)) example_zp)]\<rparr>,
        Inr ''/out/h.nsi'')
   \<and> valid_members (headerJson example_world)
   \<and> other_fields (final_header example_platform example_raw example_zp example_header)
       = other_fields example_header
   \<and> (\<exists>raw zp f.
         tar_pack example_platform (dirs example_world ''/src/app'') = Inr raw
         \<and> deflate example_platform raw = Inr zp
         \<and> map_of (final_header example_platform example_raw example_zp example_header) ''size''
             = Some (VNumber (show_nat (length zp)))
         \<and> [''/out/h.nsi'' \<mapsto>
               the (image_bytes (header_text (final_header example_platform example_raw
                 example_zp example_header)) example_zp)] ''/out/h.nsi'' = Some f
         \<and> JSON_parse (header_on_disk f)
             = Some (JObject (to_json_members
                 (final_header example_platform example_raw example_zp example_header))))"
proof -
  have valid: "valid_members (headerJson example_world)"
    by (simp add: example_world_simps valid_example_header)
  note t = createNsiImage_mutates_header [OF createNsiImage_example]
  note t2 = t [THEN conjunct2, THEN spec, THEN mp, OF refl, THEN mp, OF valid]
  from t2 obtain raw zp f where
    "tar_pack example_platform (dirs example_world ''/src/app'') = Inr raw"
    "deflate example_platform raw = Inr zp"
    "map_of (final_header example_platform example_raw example_zp example_header) ''size''
       = Some (VNumber (show_nat (length zp)))"
    "[''/out/h.nsi'' \<mapsto>
        the (image_bytes (header_text (final_header example_platform example_raw
          example_zp example_header)) example_zp)] ''/out/h.nsi'' = Some f"
    "JSON_parse (header_on_disk f)
       = Some (JObject (to_json_members
           (final_header example_platform example_raw example_zp example_header)))"
    by (auto simp: example_world_simps)
  then have ex: "\<exists>raw zp f.
         tar_pack example_platform (dirs example_world ''/src/app'') = Inr raw
         \<and> deflate example_platform raw = Inr zp
         \<and> map_of (final_header example_platform example_raw example_zp example_header) ''size''
             = Some (VNumber (show_nat (length zp)))
         \<and> [''/out/h.nsi'' \<mapsto>
               the (image_bytes (header_text (final_header example_platform example_raw
                 example_zp example_header)) example_zp)] ''/out/h.nsi'' = Some f
         \<and> JSON_parse (header_on_disk f)
             = Some (JObject (to_json_members
                 (final_header example_platform example_raw example_zp example_header)))"
    by blast
  have other: "other_fields (final_header example_platform example_raw example_zp example_header)
       = other_fields example_header"
    using t [THEN conjunct1] by (simp add: example_world_simps)
  from createNsiImage_example valid other ex show ?thesis
    by (intro conjI)
qed

lemma valid_nan_header: "valid_members nan_header"
  by (simp add: nan_header_def)

lemma nan_header_length:
  "length (header_text (final_header example_platform example_raw example_zp nan_header))
     < 2 ^ 32"
  by (simp add: header_text_def nan_header_def example_platform_def quote_def
      quote_char_def nl_indent_def final_header_def example_zp_def example_raw_def
      length_digest_def show_nat.simps)

lemma createNsiImage_nan:
  "createNsiImage example_platform ''/out/h.nsi'' ''/src/app'' nan_world
     = (nan_world
          \<lparr>headerJson := final_header example_platform example_raw example_zp nan_header,
           files := [''/out/h.nsi'' \<mapsto>
             the (image_bytes (header_text (final_header example_platform example_raw example_zp
               nan_header)) example_zp)]\<rparr>,
        Inr ''/out/h.nsi'')"
proof -
  have "image_bytes (header_text (final_header example_platform example_raw example_zp nan_header))
       example_zp
     = Some (the (image_bytes (header_text (final_header example_platform example_raw example_zp
          nan_header)) example_zp))"
    using image_bytes_Some [OF nan_header_length, of example_zp] by auto
  then show ?thesis
    using createNsiImage_writes [of example_platform nan_world "''/src/app''" example_raw
      example_zp _ "''/out/h.nsi''"]
    by (simp add: example_platform_simps nan_world_def example_pack example_deflate)
qed

text \<open>
  Claim C10 as stated says that every other field is in the written header unchanged.
  For the template whose \<^verbatim>\<open>runtime.env\<close> holds \<^verbatim>\<open>RATIO: NaN\<close>, the call resolves, the
  caller's object still holds \<^verbatim>\<open>NaN\<close>, and the header in the file holds
  \<^verbatim>\<open>"RATIO": null\<close>.
\<close>

theorem nan_written_as_null:
  "snd (createNsiImage example_platform ''/out/h.nsi'' ''/src/app'' nan_world) = Inr ''/out/h.nsi''
   \<and> map_of (headerJson (fst (createNsiImage example_platform ''/out/h.nsi'' ''/src/app''
         nan_world))) ''runtime''
       = Some (VObject [(''cmd'', VArray [VString ''/bin/true'']), (''workDir'', VString ''/app''),
                        (''env'', VObject [(''RATIO'', VNonFinite)])])
   \<and> map_option (\<lambda>j. get_prop j ''runtime'')
         (JSON_parse (header_on_disk (the (files (fst (createNsiImage example_platform
            ''/out/h.nsi'' ''/src/app'' nan_world)) ''/out/h.nsi''))))
       = Some (Some (JObject [(''cmd'', JArray [JString ''/bin/true'']),
                              (''workDir'', JString ''/app''),
                              (''env'', JObject [(''RATIO'', JNull)])]))"
proof -
  let ?h = "final_header example_platform example_raw example_zp nan_header"
  have "image_bytes (header_text ?h) example_zp = Some (the (image_bytes (header_text ?h) example_zp))"
    using image_bytes_Some [OF nan_header_length, of example_zp] by auto
  then have "header_on_disk (the (image_bytes (header_text ?h) example_zp)) = header_text ?h"
    by (rule header_on_disk_image)
  moreover have "JSON_parse (header_text ?h) = Some (JObject (to_json_members ?h))"
    using valid_nan_header by (intro JSON_parse_header_text valid_members_final_header)
  moreover have "get_prop (JObject (to_json_members ?h)) ''runtime''
      = Some (JObject [(''cmd'', JArray [JString ''/bin/true'']),
                              (''workDir'', JString ''/app''),
                              (''env'', JObject [(''RATIO'', JNull)])])"
    by (simp add: get_prop_def final_header_def nan_header_def)
  moreover have "map_of ?h ''runtime''
      = Some (VObject [(''cmd'', VArray [VString ''/bin/true'']), (''workDir'', VString ''/app''),
                        (''env'', VObject [(''RATIO'', VNonFinite)])])"
    by (simp add: final_header_def nan_header_def)
  ultimately show ?thesis
    by (simp add: createNsiImage_nan)
qed

section \<open>Theorems: the image is written at its final path\<close>

lemma write_seq_append:
  "write_seq res i (ps @ qs) content =
     (case write_seq res i ps content of
        (c, True) \<Rightarrow> write_seq res (i + length ps) qs c
      | (c, False) \<Rightarrow> (c, False))"
  by (induction ps arbitrary: i content) (simp_all split: write_result.splits)

text \<open>Writes that each take their whole buffer put the buffers in the file.\<close>

lemma write_seq_complete:
  assumes "\<forall>j<length ps. \<exists>n. res (i + j) = Wrote n \<and> length (ps ! j) \<le> n"
  shows "write_seq res i ps content = (content @ concat ps, True)"
  using assms
proof (induction ps arbitrary: i content)
  case Nil
  then show ?case by simp
next
  case (Cons p ps)
  from Cons.prems [THEN spec, of 0] obtain n where n: "res i = Wrote n" "length p \<le> n"
    by auto
  have "\<forall>j<length ps. \<exists>n. res (Suc i + j) = Wrote n \<and> length (ps ! j) \<le> n"
    using Cons.prems by (auto dest: spec [of _ "Suc j" for j])
  from Cons.IH [OF this] n show ?case
    by simp
qed

lemma write_seq_after:
  assumes "k < length pieces" and "\<forall>j<k. \<exists>n. res j = Wrote n \<and> length (pieces ! j) \<le> n"
  shows "write_seq res 0 pieces []
     = write_seq res k (pieces ! k # drop (Suc k) pieces) (concat (take k pieces))"
proof -
  have "write_seq res 0 (take k pieces) [] = ([] @ concat (take k pieces), True)"
    using assms by (intro write_seq_complete) simp
  then have "write_seq res 0 (take k pieces @ pieces ! k # drop (Suc k) pieces) []
      = write_seq res k (pieces ! k # drop (Suc k) pieces) (concat (take k pieces))"
    using assms(1) by (simp only: write_seq_append) (simp add: min_def)
  then show ?thesis
    using assms(1) by (simp only: id_take_nth_drop [symmetric])
qed

lemma write_seq_throws:
  assumes "k < length pieces" and "\<forall>j<k. \<exists>n. res j = Wrote n \<and> length (pieces ! j) \<le> n"
    and "res k = Write_throws"
  shows "write_seq res 0 pieces [] = (concat (take k pieces), False)"
  using write_seq_after [OF assms(1,2)] assms(3) by simp

lemma write_seq_short:
  assumes "k < length pieces"
    and "\<forall>j<length pieces. j \<noteq> k \<longrightarrow> (\<exists>n. res j = Wrote n \<and> length (pieces ! j) \<le> n)"
    and "res k = Wrote n"
  shows "write_seq res 0 pieces []
     = (concat (take k pieces) @ take n (pieces ! k) @ concat (drop (Suc k) pieces), True)"
proof -
  have before: "\<forall>j<k. \<exists>n. res j = Wrote n \<and> length (pieces ! j) \<le> n"
    using assms(1,2) by simp
  have "\<forall>j<length (drop (Suc k) pieces).
          \<exists>n. res (Suc k + j) = Wrote n \<and> length (drop (Suc k) pieces ! j) \<le> n"
    using assms(1,2) by simp
  then have "write_seq res (Suc k) (drop (Suc k) pieces)
        (concat (take k pieces) @ take n (pieces ! k))
      = ((concat (take k pieces) @ take n (pieces ! k)) @ concat (drop (Suc k) pieces), True)"
    by (rule write_seq_complete)
  then show ?thesis
    using write_seq_after [OF assms(1) before] assms(3) by simp
qed

lemma handler_write_image_open_fails:
  "handler_write_image False res close_ok out pieces fs = (fs, False)"
  by (simp add: handler_write_image_def)

lemma handler_write_image_opened:
  "handler_write_image True res close_ok out pieces fs
     = (fs(out \<mapsto> fst (write_seq res 0 pieces [])), snd (write_seq res 0 pieces []) \<and> close_ok)"
  by (simp add: handler_write_image_def split: prod.splits)

text \<open>
  Claim C7, as amended (the image is written directly at the final path; nothing is written
  to a temporary file and renamed).  \<^verbatim>\<open>createNsiImage\<close> changes no path but the image path:
  when it resolves, the image path holds the complete image; when \<^verbatim>\<open>fs.writeFile\<close> fails
  after \<open>n\<close> bytes, it holds the first \<open>n\<close> bytes of the image and the promise is rejected.
  Step 7 of the build command leaves the output path as it is when the open fails.
  Otherwise, when every write takes its whole buffer, the output path holds the five
  buffers, and the step completes if the close does; when write number \<open>k\<close> throws after
  complete writes, it holds the buffers before that one and the step fails; when write
  number \<open>k\<close> alone takes only \<open>n\<close> bytes of its buffer, the output path holds the buffers
  with that one cut to \<open>n\<close> bytes, and the step completes as if nothing had happened.
\<close>

theorem write_is_direct:
  "(createNsiImage pf imagePath sourceDir w = (w', r) \<longrightarrow>
      (\<forall>p. p \<noteq> imagePath \<longrightarrow> files w' p = files w p)
      \<and> (\<forall>path. r = Inr path \<longrightarrow>
            (\<exists>raw zp f. tar_pack pf (dirs w sourceDir) = Inr raw \<and> deflate pf raw = Inr zp
               \<and> image_bytes (header_text (headerJson w')) zp = Some f
               \<and> files w' imagePath = Some f))
      \<and> (\<forall>n msg raw zp f.
            write_fault pf = WriteFailedAfter n msg \<and> tar_pack pf (dirs w sourceDir) = Inr raw
            \<and> deflate pf raw = Inr zp
            \<and> image_bytes (header_text (final_header pf raw zp (headerJson w))) zp = Some f
            \<longrightarrow> r = Inl (WriteImageFailed msg) \<and> files w' imagePath = Some (take n f)))
   \<and> (handler_write_image open_ok res close_ok out pieces fs = (fs', ok) \<longrightarrow>
      (\<not> open_ok \<longrightarrow> fs' = fs \<and> \<not> ok)
      \<and> (open_ok \<longrightarrow>
            ((\<forall>i<length pieces. \<exists>n. res i = Wrote n \<and> length (pieces ! i) \<le> n)
               \<longrightarrow> fs' out = Some (concat pieces) \<and> ok = close_ok)
            \<and> (\<forall>k. k < length pieces
                    \<and> (\<forall>i<k. \<exists>n. res i = Wrote n \<and> length (pieces ! i) \<le> n)
                    \<and> res k = Write_throws
                  \<longrightarrow> fs' out = Some (concat (take k pieces)) \<and> \<not> ok)
            \<and> (\<forall>k n. k < length pieces
                    \<and> (\<forall>i<length pieces. i \<noteq> k
                          \<longrightarrow> (\<exists>m. res i = Wrote m \<and> length (pieces ! i) \<le> m))
                    \<and> res k = Wrote n
                  \<longrightarrow> fs' out = Some (concat (take k pieces) @ take n (pieces ! k)
                                         @ concat (drop (Suc k) pieces))
                      \<and> ok = close_ok)))"
proof (intro conjI impI allI)
  assume run: "createNsiImage pf imagePath sourceDir w = (w', r)"
  show "files w' p = files w p" if "p \<noteq> imagePath" for p
    using run that by (rule createNsiImage_other_paths(1))
  show "\<exists>raw zp f. tar_pack pf (dirs w sourceDir) = Inr raw \<and> deflate pf raw = Inr zp
               \<and> image_bytes (header_text (headerJson w')) zp = Some f
               \<and> files w' imagePath = Some f" if "r = Inr path" for path
    using createNsiImage_success [of pf imagePath sourceDir w w' path] run that by auto
  fix n msg raw zp f
  assume f: "write_fault pf = WriteFailedAfter n msg \<and> tar_pack pf (dirs w sourceDir) = Inr raw
            \<and> deflate pf raw = Inr zp
            \<and> image_bytes (header_text (final_header pf raw zp (headerJson w))) zp = Some f"
  then have "createNsiImage pf imagePath sourceDir w
      = (w\<lparr>headerJson := final_header pf raw zp (headerJson w),
             files := (files w)(imagePath \<mapsto> take n f)\<rparr>, Inl (WriteImageFailed msg))"
    using createNsiImage_writes [of pf w sourceDir raw zp f imagePath] by simp
  with run show "r = Inl (WriteImageFailed msg)" "files w' imagePath = Some (take n f)"
    by auto
next
  assume run: "handler_write_image open_ok res close_ok out pieces fs = (fs', ok)"
  show "fs' = fs" "\<not> ok" if "\<not> open_ok"
    using run that by (simp_all add: handler_write_image_open_fails)
  assume "open_ok"
  with run have fs': "fs' = fs(out \<mapsto> fst (write_seq res 0 pieces []))"
    and ok: "ok = (snd (write_seq res 0 pieces []) \<and> close_ok)"
    by (simp_all add: handler_write_image_opened)
  show "fs' out = Some (concat pieces)" "ok = close_ok"
    if "\<forall>i<length pieces. \<exists>n. res i = Wrote n \<and> length (pieces ! i) \<le> n"
    using write_seq_complete [of pieces res 0 "[]"] that by (simp_all add: fs' ok)
  show "fs' out = Some (concat (take k pieces))" "\<not> ok"
    if "k < length pieces \<and> (\<forall>i<k. \<exists>n. res i = Wrote n \<and> length (pieces ! i) \<le> n)
          \<and> res k = Write_throws" for k
    using write_seq_throws [of k pieces res] that by (simp_all add: fs' ok)
  show "fs' out = Some (concat (take k pieces) @ take n (pieces ! k)
                                         @ concat (drop (Suc k) pieces))" "ok = close_ok"
    if "k < length pieces
          \<and> (\<forall>i<length pieces. i \<noteq> k \<longrightarrow> (\<exists>m. res i = Wrote m \<and> length (pieces ! i) \<le> m))
          \<and> res k = Wrote n" for k n
    using write_seq_short [of k pieces res n] that by (simp_all add: fs' ok)
qed

lemma disk_full_simps:
  "tar_pack disk_full_platform = list_pack" "deflate disk_full_platform = store_deflate"
  "write_fault disk_full_platform = WriteFailedAfter 4 ''ENOSPC''"
  "final_header disk_full_platform = final_header example_platform"
  by (simp_all add: disk_full_platform_def example_platform_def final_header_def fun_eq_iff)

lemma example_disk_full:
  "createNsiImage disk_full_platform ''/out/h.nsi'' ''/src/app'' example_world
     = (example_world
          \<lparr>headerJson := final_header example_platform example_raw example_zp example_header,
           files := [''/out/h.nsi'' \<mapsto> ''NSI!'']\<rparr>,
        Inl (WriteImageFailed ''ENOSPC''))"
proof -
  obtain vb lb where "the (image_bytes (header_text (final_header example_platform example_raw
        example_zp example_header)) example_zp) = MAGIC_BYTES @ vb @ lb @
        header_text (final_header example_platform example_raw example_zp example_header)
        @ example_zp"
    using image_bytes_layout [OF example_image_bytes] by auto
  then have "take 4 (the (image_bytes (header_text (final_header example_platform example_raw
        example_zp example_header)) example_zp)) = ''NSI!''"
    by (simp add: MAGIC_BYTES_def)
  then show ?thesis
    using createNsiImage_writes [of disk_full_platform example_world "''/src/app''" example_raw
        example_zp _ "''/out/h.nsi''"]
      example_image_bytes
    by (simp add: disk_full_simps example_world_simps example_pack example_deflate)
qed

lemma example_pieces_length: "length example_pieces = 5"
  by (simp add: example_pieces_def)

lemma example_compact_header_length: "length example_compact_header < 2 ^ 32"
  by (simp add: example_compact_header_def quote_def quote_char_def)

lemma example_pieces_small: "i < 5 \<Longrightarrow> length (example_pieces ! i) \<le> 2 ^ 32"
proof -
  assume "i < 5"
  then have "i = 0 \<or> i = 1 \<or> i = 2 \<or> i = 3 \<or> i = 4"
    by arith
  moreover have "length (the (writeUInt32BE (length example_compact_header))) = 4"
    using example_compact_header_length by (simp add: writeUInt32BE_def)
  ultimately show ?thesis
    using example_compact_header_length
    by (elim disjE) (simp_all add: example_pieces_def zlib_of_1024_zeros_def)
qed

lemma all_written_complete:
  "\<forall>i<length example_pieces. \<exists>n. all_written i = Wrote n \<and> length (example_pieces ! i) \<le> n"
  using example_pieces_small by (auto simp add: all_written_def example_pieces_length)

lemma third_write_throws_before:
  "\<forall>i<2. \<exists>n. third_write_throws i = Wrote n \<and> length (example_pieces ! i) \<le> n"
  using example_pieces_small by (auto simp add: third_write_throws_def)

lemma short_header_write_others:
  "\<forall>i<length example_pieces. i \<noteq> 3
     \<longrightarrow> (\<exists>m. short_header_write i = Wrote m \<and> length (example_pieces ! i) \<le> m)"
  using example_pieces_small by (auto simp add: short_header_write_def example_pieces_length)

theorem write_is_direct_witness:
  "snd (createNsiImage example_platform ''/out/h.nsi'' ''/src/app'' example_world)
     = Inr ''/out/h.nsi''
   \<and> (\<exists>raw zp f. tar_pack example_platform (dirs example_world ''/src/app'') = Inr raw
         \<and> deflate example_platform raw = Inr zp
         \<and> image_bytes (header_text (headerJson
               (fst (createNsiImage example_platform ''/out/h.nsi'' ''/src/app'' example_world))))
             zp = Some f
         \<and> files (fst (createNsiImage example_platform ''/out/h.nsi'' ''/src/app'' example_world))
             ''/out/h.nsi'' = Some f)
   \<and> write_fault disk_full_platform = WriteFailedAfter 4 ''ENOSPC''
   \<and> files (fst (createNsiImage disk_full_platform ''/out/h.nsi'' ''/src/app'' example_world))
        ''/out/h.nsi''
       = Some (take 4 (the (image_bytes (header_text (final_header example_platform example_raw
               example_zp example_header)) example_zp)))
   \<and> fst (handler_write_image True all_written True ''/out/h-0.1.nsi'' example_pieces Map.empty)
        ''/out/h-0.1.nsi''
       = Some (concat example_pieces)
   \<and> snd (handler_write_image True all_written True ''/out/h-0.1.nsi'' example_pieces Map.empty)
       = True
   \<and> 2 < length example_pieces \<and> third_write_throws 2 = Write_throws
   \<and> fst (handler_write_image True third_write_throws True ''/out/h-0.1.nsi'' example_pieces
          Map.empty) ''/out/h-0.1.nsi''
       = Some (concat (take 2 example_pieces))
   \<and> \<not> snd (handler_write_image True third_write_throws True ''/out/h-0.1.nsi'' example_pieces
          Map.empty)
   \<and> 3 < length example_pieces \<and> short_header_write 3 = Wrote 10
   \<and> fst (handler_write_image True short_header_write True ''/out/h-0.1.nsi'' example_pieces
          Map.empty) ''/out/h-0.1.nsi''
       = Some (concat (take 3 example_pieces) @ take 10 (example_pieces ! 3)
               @ concat (drop (Suc 3) example_pieces))
   \<and> snd (handler_write_image True short_header_write True ''/out/h-0.1.nsi'' example_pieces
          Map.empty) = True"
proof -
  let ?P = "''/out/h.nsi''" and ?D = "''/src/app''" and ?out = "''/out/h-0.1.nsi''"
  let ?run1 = "createNsiImage example_platform ?P ?D example_world"
  let ?run2 = "createNsiImage disk_full_platform ?P ?D example_world"
  let ?h1 = "handler_write_image True all_written True ?out example_pieces Map.empty"
  let ?h2 = "handler_write_image True third_write_throws True ?out example_pieces Map.empty"
  let ?h3 = "handler_write_image True short_header_write True ?out example_pieces Map.empty"
  note t1 = write_is_direct [of example_platform ?P ?D example_world "fst ?run1" "snd ?run1"
      True all_written True ?out example_pieces Map.empty "fst ?h1" "snd ?h1"]
  note t2 = write_is_direct [of disk_full_platform ?P ?D example_world "fst ?run2" "snd ?run2"
      True third_write_throws True ?out example_pieces Map.empty "fst ?h2" "snd ?h2"]
  note t3 = write_is_direct [of example_platform ?P ?D example_world "fst ?run1" "snd ?run1"
      True short_header_write True ?out example_pieces Map.empty "fst ?h3" "snd ?h3"]
  have r1: "snd ?run1 = Inr ?P"
    by (simp only: createNsiImage_example snd_conv)
  have a: "\<exists>raw zp f. tar_pack example_platform (dirs example_world ?D) = Inr raw
         \<and> deflate example_platform raw = Inr zp
         \<and> image_bytes (header_text (headerJson (fst ?run1))) zp = Some f
         \<and> files (fst ?run1) ?P = Some f"
    using t1 [THEN conjunct1, THEN mp, OF prod.collapse [symmetric],
        THEN conjunct2, THEN conjunct1, THEN spec, THEN mp, OF r1] .
  have pf: "write_fault disk_full_platform = WriteFailedAfter 4 ''ENOSPC''"
    by (rule disk_full_simps)
  have hyp: "write_fault disk_full_platform = WriteFailedAfter 4 ''ENOSPC''
       \<and> tar_pack disk_full_platform (dirs example_world ?D) = Inr example_raw
       \<and> deflate disk_full_platform example_raw = Inr example_zp
       \<and> image_bytes (header_text (final_header disk_full_platform example_raw example_zp
             (headerJson example_world))) example_zp
           = Some (the (image_bytes (header_text (final_header example_platform example_raw
               example_zp example_header)) example_zp))"
    using example_image_bytes
    by (simp add: disk_full_simps example_world_simps example_pack example_deflate)
  have b: "files (fst ?run2) ?P
       = Some (take 4 (the (image_bytes (header_text (final_header example_platform example_raw
               example_zp example_header)) example_zp)))"
    using t2 [THEN conjunct1, THEN mp, OF prod.collapse [symmetric],
        THEN conjunct2, THEN conjunct2, THEN spec, THEN spec, THEN spec, THEN spec, THEN spec,
        THEN mp, OF hyp, THEN conjunct2] .
  note c = t1 [THEN conjunct2, THEN mp, OF prod.collapse [symmetric],
        THEN conjunct2, THEN mp, OF TrueI, THEN conjunct1, THEN mp, OF all_written_complete]
  have len2: "2 < length example_pieces" and len3: "3 < length example_pieces"
    by (simp_all add: example_pieces_length)
  have thr: "third_write_throws 2 = Write_throws"
    by (simp add: third_write_throws_def)
  have sh: "short_header_write 3 = Wrote 10"
    by (simp add: short_header_write_def)
  note d = t2 [THEN conjunct2, THEN mp, OF prod.collapse [symmetric],
        THEN conjunct2, THEN mp, OF TrueI, THEN conjunct2, THEN conjunct1, THEN spec, THEN mp,
        OF conjI [OF len2 conjI [OF third_write_throws_before thr]]]
  note e = t3 [THEN conjunct2, THEN mp, OF prod.collapse [symmetric],
        THEN conjunct2, THEN mp, OF TrueI, THEN conjunct2, THEN conjunct2, THEN spec, THEN spec,
        THEN mp, OF conjI [OF len3 conjI [OF short_header_write_others sh]]]
  from r1 a pf b c [THEN conjunct1] c [THEN conjunct2] len2 thr d [THEN conjunct1]
    d [THEN conjunct2] len3 sh e [THEN conjunct1] e [THEN conjunct2]
  show ?thesis by (intro conjI)
qed

lemma example_third_write_throws:
  "handler_write_image True third_write_throws True ''/out/h-0.1.nsi'' example_pieces Map.empty
     = ([''/out/h-0.1.nsi'' \<mapsto> ''NSI!'' @ [CHR 0x00, CHR 0x00, CHR 0x00, CHR 0x01]], False)"
proof -
  have "write_seq third_write_throws 0 example_pieces [] = (concat (take 2 example_pieces), False)"
    using third_write_throws_before
    by (intro write_seq_throws) (simp_all add: example_pieces_length third_write_throws_def)
  then show ?thesis
    by (simp add: handler_write_image_def) (simp add: example_pieces_def)
qed

lemma example_short_header_write:
  "handler_write_image True short_header_write True ''/out/h-0.1.nsi'' example_pieces Map.empty
     = ([''/out/h-0.1.nsi'' \<mapsto>
           ''NSI!'' @ [CHR 0x00, CHR 0x00, CHR 0x00, CHR 0x01]
           @ the (writeUInt32BE (length example_compact_header))
           @ take 10 example_compact_header @ zlib_of_1024_zeros], True)"
proof -
  have "write_seq short_header_write 0 example_pieces []
      = (concat (take 3 example_pieces) @ take 10 (example_pieces ! 3)
           @ concat (drop (Suc 3) example_pieces), True)"
    using short_header_write_others
    by (intro write_seq_short) (simp_all add: example_pieces_length short_header_write_def)
  then show ?thesis
    by (simp add: handler_write_image_def) (simp add: example_pieces_def)
qed

lemma take_10_example_compact_header:
  "take 10 example_compact_header = CHR ''{'' # CHR 0x22 # ''imageNam''"
  by (simp add: example_compact_header_def quote_def quote_char_def)

text \<open>
  Claim C7 as stated says that no partially written file is ever at the final path.  When
  the third write of the build command throws, the output path holds the eight bytes of
  magic and version and stays; when \<^verbatim>\<open>fs.writeFile\<close> in \<^verbatim>\<open>createNsiImage\<close> fails after four
  bytes, the image path holds \<^verbatim>\<open>NSI!\<close>; and when the write of the header takes ten bytes
  only, the build completes and the output path holds an image with ten bytes of header.
\<close>

theorem partial_image_at_final_path:
  "handler_write_image True third_write_throws True ''/out/h-0.1.nsi'' example_pieces Map.empty
     = ([''/out/h-0.1.nsi'' \<mapsto> ''NSI!'' @ [CHR 0x00, CHR 0x00, CHR 0x00, CHR 0x01]], False)
   \<and> createNsiImage disk_full_platform ''/out/h.nsi'' ''/src/app'' example_world
     = (example_world
          \<lparr>headerJson := final_header example_platform example_raw example_zp example_header,
           files := [''/out/h.nsi'' \<mapsto> ''NSI!'']\<rparr>,
        Inl (WriteImageFailed ''ENOSPC''))
   \<and> handler_write_image True short_header_write True ''/out/h-0.1.nsi'' example_pieces Map.empty
     = ([''/out/h-0.1.nsi'' \<mapsto>
           ''NSI!'' @ [CHR 0x00, CHR 0x00, CHR 0x00, CHR 0x01]
           @ the (writeUInt32BE (length example_compact_header))
           @ (CHR ''{'' # CHR 0x22 # ''imageNam'') @ zlib_of_1024_zeros], True)"
  using example_third_write_throws example_disk_full example_short_header_write
  by (simp only: take_10_example_compact_header simp_thms)

section \<open>Theorems: the environment of the container command\<close>

































section \<open>Theorems: the hash check of the run command\<close>




section \<open>Theorems: writing, then opening and extracting\<close>








end
